theory Spec2Isabelle
  imports Main
begin

section \<open>Bytes, C strings and the C library\<close>

text \<open>
  A buffer is the list of its bytes. A \<^verbatim>\<open>const char *\<close> that points into a
  NUL-terminated buffer is either an offset into the list or the list of the bytes from the
  pointer on; the terminator is the byte read at the end of the list, and a NUL byte inside
  the list ends the C string there, as it does in C.

  Offsets and line counters are natural numbers: a pointer difference or a \<^verbatim>\<open>size_t\<close>
  is modelled by its exact value. The source returns several of them as \<^verbatim>\<open>int\<close>;
  \<open>to_int32\<close> is that conversion (32 bits, two's complement). It is the identity below
  \<open>2^31\<close>, so for a message shorter than \<open>2^31\<close> bytes every \<^verbatim>\<open>int\<close> of the source
  holds the natural number of the model; a statement about a returned \<^verbatim>\<open>int\<close> carries
  that bound. Only \<^verbatim>\<open>last_line\<close> and \<^verbatim>\<open>find_separator\<close>, which return \<open>-1\<close>, are
  integers in the model.
\<close>

definition to_int32 :: "nat \<Rightarrow> int" where
  "to_int32 n = (int n + 2 ^ 31) mod 2 ^ 32 - 2 ^ 31"

lemma to_int32_small: "n < 2 ^ 31 \<Longrightarrow> to_int32 n = int n"
  by (simp add: to_int32_def)

lemma to_int32_wraps: "to_int32 (2 ^ 31 + 5) = - 2147483643"
  by (simp add: to_int32_def)

definition NUL :: char where
  "NUL = CHR 0x00"

definition nl :: char where
  "nl = CHR 0x0A"

definition tab :: char where
  "tab = CHR 0x09"

definition COMMENT_LINE_CHAR :: char where
  "COMMENT_LINE_CHAR = CHR ''#''"

definition TRAILER_SEPARATORS :: string where
  "TRAILER_SEPARATORS = '':''"

definition git_generated_prefixes :: "string list" where
  "git_generated_prefixes = [''Signed-off-by: '', ''(cherry picked from commit '']"

text \<open>\<open>at buf i\<close> is \<^verbatim>\<open>buf[i]\<close>: the byte at offset \<open>i\<close>, the terminator at the end.\<close>

definition at :: "string \<Rightarrow> nat \<Rightarrow> char" where
  "at buf i = (if i < length buf then buf ! i else NUL)"

text \<open>
  \<^verbatim>\<open>isspace\<close> and \<^verbatim>\<open>isalnum\<close> of the C library, in the C locale: the six
  ASCII white-space bytes, and the ASCII digits and letters.
\<close>

definition isspace :: "char \<Rightarrow> bool" where
  "isspace c = (c = CHR '' '' \<or> (9 \<le> (of_char c :: nat) \<and> (of_char c :: nat) \<le> 13))"

definition isalnum :: "char \<Rightarrow> bool" where
  "isalnum c = (let n = (of_char c :: nat) in
     (48 \<le> n \<and> n \<le> 57) \<or> (65 \<le> n \<and> n \<le> 90) \<or> (97 \<le> n \<and> n \<le> 122))"

text \<open>
  Modelled from the spec: \<^verbatim>\<open>git__prefixcmp\<close> is declared in \<^verbatim>\<open>common.h\<close> and is not
  among the sources. It is zero exactly when the first string begins with the second
  (``a line whose content begins with \<^verbatim>\<open>---\<close>''); otherwise it is the difference of the
  first two bytes that differ, the end of the first string read as its terminator.
\<close>

fun git__prefixcmp :: "string \<Rightarrow> string \<Rightarrow> int" where
  "git__prefixcmp str [] = 0"
| "git__prefixcmp [] (p # ps) = int (of_char NUL) - int (of_char p)"
| "git__prefixcmp (s # ss) (p # ps) =
     (if s \<noteq> p then int (of_char s) - int (of_char p) else git__prefixcmp ss ps)"

section \<open>Line helpers\<close>

text \<open>
  \<^verbatim>\<open>is_blank_line(str)\<close>: skip white space other than the line break, then ask whether the
  line or the string ends there.
\<close>

fun is_blank_line :: "string \<Rightarrow> bool" where
  "is_blank_line [] = True"
| "is_blank_line (c # cs) =
     (if c \<noteq> NUL \<and> c \<noteq> nl \<and> isspace c then is_blank_line cs else (c = NUL \<or> c = nl))"

text \<open>
  \<^verbatim>\<open>next_line(str)\<close> returns a pointer; the model returns its distance from \<^verbatim>\<open>str\<close>:
  one past the first line break, or \<^verbatim>\<open>strlen(str)\<close> when the string has none.
\<close>

fun next_line :: "string \<Rightarrow> nat" where
  "next_line [] = 0"
| "next_line (c # cs) = (if c = NUL then 0 else if c = nl then 1 else 1 + next_line cs)"

text \<open>
  \<^verbatim>\<open>last_line(buf, len)\<close>: the loop variable of the model is \<open>i + 1\<close>, so that the
  loop's exit at \<open>i = -1\<close> is the argument \<open>0\<close>.
\<close>

fun last_line_loop :: "string \<Rightarrow> nat \<Rightarrow> int" where
  "last_line_loop buf 0 = 0"
| "last_line_loop buf (Suc i) = (if at buf i = nl then int i + 1 else last_line_loop buf i)"

definition last_line :: "string \<Rightarrow> nat \<Rightarrow> int" where
  "last_line buf len =
     (if len = 0 then - 1 else if len = 1 then 0 else last_line_loop buf (len - 1))"

text \<open>
  \<^verbatim>\<open>find_separator(line, separators)\<close>: the loop runs over the bytes of the line; \<open>i\<close> is
  \<^verbatim>\<open>c - line\<close>.
\<close>

fun find_separator_loop :: "string \<Rightarrow> string \<Rightarrow> nat \<Rightarrow> bool \<Rightarrow> int" where
  "find_separator_loop [] separators i whitespace_found = - 1"
| "find_separator_loop (c # cs) separators i whitespace_found =
     (if c = NUL then - 1
      else if c \<in> set separators then int i
      else if \<not> whitespace_found \<and> (isalnum c \<or> c = CHR ''-'')
        then find_separator_loop cs separators (i + 1) whitespace_found
      else if i \<noteq> 0 \<and> (c = CHR '' '' \<or> c = tab)
        then find_separator_loop cs separators (i + 1) True
      else - 1)"

definition find_separator :: "string \<Rightarrow> string \<Rightarrow> int" where
  "find_separator line separators = find_separator_loop line separators 0 False"

lemma next_line_pos: "at s 0 \<noteq> NUL \<Longrightarrow> 0 < next_line s"
  by (cases s) (auto simp: at_def)

lemma next_line_le: "next_line s \<le> length s"
  by (induction s) auto

lemma not_blank_not_NUL: "\<not> is_blank_line s \<Longrightarrow> at s 0 \<noteq> NUL"
  by (cases s) (auto simp: at_def split: if_splits)

lemma at_drop: "at (drop i buf) 0 = at buf i"
  by (simp add: at_def)

lemma last_line_loop_le: "last_line_loop buf n \<le> int n"
  by (induction n) auto

lemma last_line_loop_nonneg: "0 \<le> last_line_loop buf n"
  by (induction n) auto

lemma last_line_less: "last_line buf len < int len"
  using last_line_loop_le [of buf "len - 1"] by (auto simp: last_line_def)

lemma last_line_nat_less: "0 \<le> l \<Longrightarrow> last_line buf (nat l) < l"
  using last_line_less [of buf "nat l"] by simp

section \<open>The three locators\<close>

text \<open>
  \<^verbatim>\<open>memchr(s, c, n)\<close>: the offset of the first byte \<open>c\<close> among the first \<open>n\<close> bytes at
  \<open>s\<close>, if there is one. It does not stop at a terminator.
\<close>

fun memchr :: "string \<Rightarrow> char \<Rightarrow> nat \<Rightarrow> nat option" where
  "memchr s c 0 = None"
| "memchr [] c (Suc n) = None"
| "memchr (x # xs) c (Suc n) =
     (if x = c then Some 0 else map_option Suc (memchr xs c n))"

lemma memchr_less: "memchr s c n = Some k \<Longrightarrow> k < n"
  by (induction s c n arbitrary: k rule: memchr.induct) (auto split: if_splits)

text \<open>
  \<^verbatim>\<open>ignore_non_trailer(buf, len)\<close>. The loop's state is \<open>bol\<close>, \<open>boc\<close> and
  \<open>in_old_conflicts_block\<close>; \<open>cutoff\<close> is \<open>len\<close> throughout. \<open>boc\<close> is both the start of
  the run and, when \<open>0\<close>, the mark that there is no run, as in the source.
\<close>

function ignore_non_trailer_loop :: "string \<Rightarrow> nat \<Rightarrow> nat \<Rightarrow> nat \<Rightarrow> bool \<Rightarrow> nat" where
  "ignore_non_trailer_loop buf len bol boc in_old_conflicts_block =
     (if bol < len then
        (let next_line = (case memchr (drop bol buf) nl (len - bol) of
                            None \<Rightarrow> len
                          | Some k \<Rightarrow> bol + k + 1)
         in if at buf bol = COMMENT_LINE_CHAR \<or> at buf bol = nl then
              ignore_non_trailer_loop buf len next_line
                (if boc = 0 then bol else boc) in_old_conflicts_block
            else if git__prefixcmp (drop bol buf) (''Conflicts:'' @ [nl]) = 0 then
              ignore_non_trailer_loop buf len next_line (if boc = 0 then bol else boc) True
            else if in_old_conflicts_block \<and> at buf bol = tab then
              ignore_non_trailer_loop buf len next_line boc in_old_conflicts_block
            else if boc \<noteq> 0 then
              ignore_non_trailer_loop buf len next_line 0 False
            else
              ignore_non_trailer_loop buf len next_line boc in_old_conflicts_block)
      else (if boc \<noteq> 0 then len - boc else len - len))"
  by pat_completeness auto
termination
  by (relation "measure (\<lambda>(buf, len, bol, boc, c). len - bol)")
     (auto split: option.splits dest: memchr_less)

declare ignore_non_trailer_loop.simps [simp del]

definition ignore_non_trailer :: "string \<Rightarrow> nat \<Rightarrow> nat" where
  "ignore_non_trailer buf len = ignore_non_trailer_loop buf len 0 0 False"

text \<open>
  \<^verbatim>\<open>find_patch_start(str)\<close>: \<open>s\<close> is the offset \<^verbatim>\<open>s - str\<close> of the loop's pointer, and
  the result is that offset at the \<^verbatim>\<open>return\<close>. The source returns it as an \<^verbatim>\<open>int\<close>,
  \<open>to_int32\<close> of the offset.
\<close>

function find_patch_start_loop :: "string \<Rightarrow> nat \<Rightarrow> nat" where
  "find_patch_start_loop str s =
     (if at str s = NUL then s
      else if git__prefixcmp (drop s str) ''---'' = 0 then s
      else find_patch_start_loop str (s + next_line (drop s str)))"
  by pat_completeness auto
termination
proof (relation "measure (\<lambda>(str, s). length str - s)")
  show "wf (measure (\<lambda>(str, s). length str - s))" by simp
next
  fix str :: string and s :: nat
  assume a: "at str s \<noteq> NUL"
  then have "s < length str" by (auto simp: at_def split: if_splits)
  moreover have "0 < next_line (drop s str)"
    using a by (intro next_line_pos) (simp add: at_drop)
  ultimately show "((str, s + next_line (drop s str)), (str, s)) \<in> measure (\<lambda>(str, s). length str - s)"
    by simp
qed

declare find_patch_start_loop.simps [simp del]

definition find_patch_start :: "string \<Rightarrow> nat" where
  "find_patch_start str = find_patch_start_loop str 0"

text \<open>
  \<^verbatim>\<open>find_trailer_start(buf, len)\<close>, first loop: the end of the title. \<open>s\<close> is the offset of
  the loop's pointer; the result is \<^verbatim>\<open>end_of_title\<close>.
\<close>

function find_title_end :: "string \<Rightarrow> nat \<Rightarrow> nat \<Rightarrow> nat" where
  "find_title_end buf len s =
     (if s < len then
        (if at buf s = COMMENT_LINE_CHAR then find_title_end buf len (s + next_line (drop s buf))
         else if is_blank_line (drop s buf) then s
         else find_title_end buf len (s + next_line (drop s buf)))
      else s)"
  by pat_completeness auto
termination
proof (relation "measure (\<lambda>(buf, len, s). len - s)")
  show "wf (measure (\<lambda>(buf, len, s). len - s))" by simp
next
  fix buf :: string and len s :: nat
  assume "s < len" "at buf s = COMMENT_LINE_CHAR"
  then have "0 < next_line (drop s buf)"
    by (intro next_line_pos) (simp add: at_drop COMMENT_LINE_CHAR_def NUL_def)
  with \<open>s < len\<close> show "((buf, len, s + next_line (drop s buf)), (buf, len, s))
      \<in> measure (\<lambda>(buf, len, s). len - s)"
    by simp
next
  fix buf :: string and len s :: nat
  assume "s < len" "\<not> is_blank_line (drop s buf)"
  then have "0 < next_line (drop s buf)"
    by (intro next_line_pos not_blank_not_NUL)
  with \<open>s < len\<close> show "((buf, len, s + next_line (drop s buf)), (buf, len, s))
      \<in> measure (\<lambda>(buf, len, s). len - s)"
    by simp
qed

declare find_title_end.simps [simp del]

text \<open>
  Second loop: the backward scan. \<open>l\<close> is the loop's line offset (\<open>-1\<close> once
  \<^verbatim>\<open>last_line\<close> has run out of lines); the other arguments are the source's counters and
  flags. The loop over \<^verbatim>\<open>git_generated_prefixes\<close> only asks whether one of them matches.
\<close>

definition has_generated_prefix :: "string \<Rightarrow> bool" where
  "has_generated_prefix bol = list_ex (\<lambda>p. git__prefixcmp bol p = 0) git_generated_prefixes"

function find_trailer_start_loop ::
  "string \<Rightarrow> nat \<Rightarrow> nat \<Rightarrow> int \<Rightarrow> bool \<Rightarrow> bool \<Rightarrow> nat \<Rightarrow> nat \<Rightarrow> nat \<Rightarrow> nat" where
  "find_trailer_start_loop buf len end_of_title l only_spaces recognized_prefix
       trailer_lines non_trailer_lines possible_continuation_lines =
     (if l \<ge> int end_of_title then
        (let bol = drop (nat l) buf in
         if at bol 0 = COMMENT_LINE_CHAR then
           find_trailer_start_loop buf len end_of_title (last_line buf (nat l))
             only_spaces recognized_prefix trailer_lines
             (non_trailer_lines + possible_continuation_lines) 0
         else if is_blank_line bol then
           (if only_spaces then
              find_trailer_start_loop buf len end_of_title (last_line buf (nat l))
                only_spaces recognized_prefix trailer_lines non_trailer_lines
                possible_continuation_lines
            else if recognized_prefix
                \<and> trailer_lines * 3 \<ge> non_trailer_lines + possible_continuation_lines then
              nat l + next_line bol
            else if trailer_lines \<noteq> 0
                \<and> non_trailer_lines + possible_continuation_lines = 0 then
              nat l + next_line bol
            else len)
         else if has_generated_prefix bol then
           find_trailer_start_loop buf len end_of_title (last_line buf (nat l))
             False True (trailer_lines + 1) non_trailer_lines 0
         else if find_separator bol TRAILER_SEPARATORS \<ge> 1 \<and> \<not> isspace (at bol 0) then
           find_trailer_start_loop buf len end_of_title (last_line buf (nat l))
             False recognized_prefix (trailer_lines + 1) non_trailer_lines 0
         else if isspace (at bol 0) then
           find_trailer_start_loop buf len end_of_title (last_line buf (nat l))
             False recognized_prefix trailer_lines non_trailer_lines
             (possible_continuation_lines + 1)
         else
           find_trailer_start_loop buf len end_of_title (last_line buf (nat l))
             False recognized_prefix trailer_lines
             (non_trailer_lines + 1 + possible_continuation_lines) 0)
      else len)"
  by pat_completeness auto
termination
proof -
  have step: "last_line buf (nat l) + 1 \<le> l" if "int e \<le> l"
    for buf :: string and l :: int and e :: nat
    using last_line_nat_less [of l buf] that by linarith
  show ?thesis
    by (relation "measure (\<lambda>(buf, len, e, l, r). nat (l + 1))") (simp_all add: step)
qed

declare find_trailer_start_loop.simps [simp del]

text \<open>
  \<^verbatim>\<open>find_trailer_start(buf, len)\<close>: the two loops in turn. The source keeps
  \<^verbatim>\<open>end_of_title\<close>, \<^verbatim>\<open>l\<close> and the counters in \<^verbatim>\<open>int\<close>s and returns an
  \<^verbatim>\<open>int\<close>, \<open>to_int32\<close> of the offset. The offsets are at most \<open>len\<close>; the counters
  count lines of the region, and \<open>n\<close> trailer lines take \<open>3 * n - 1\<close> bytes at least, so
  for a region shorter than \<open>2^31\<close> bytes no value of the loop, \<^verbatim>\<open>trailer_lines * 3\<close>
  included, leaves the range of an \<^verbatim>\<open>int\<close>.
\<close>

definition find_trailer_start :: "string \<Rightarrow> nat \<Rightarrow> nat" where
  "find_trailer_start buf len =
     find_trailer_start_loop buf len (find_title_end buf len 0) (last_line buf len)
       True False 0 0 0"

definition find_trailer_end :: "string \<Rightarrow> nat \<Rightarrow> nat" where
  "find_trailer_end buf len = len - ignore_non_trailer buf len"

section \<open>The trailer block and its iterator\<close>

text \<open>
  \<^verbatim>\<open>extract_trailer_block(message, &len)\<close>: the buffer returned (the bytes of
  \<open>[trailer_start, trailer_end)\<close> and the terminator written after them) and the length
  stored through \<^verbatim>\<open>len\<close>. \<^verbatim>\<open>git__malloc\<close> is taken to succeed; the source does
  not test its result.
\<close>

definition extract_trailer_block :: "string \<Rightarrow> string \<times> nat" where
  "extract_trailer_block message =
     (let patch_start = find_patch_start message;
          trailer_end = find_trailer_end message patch_start;
          trailer_start = find_trailer_start message trailer_end;
          trailer_len = trailer_end - trailer_start
      in (take trailer_len (drop trailer_start message) @ [NUL], trailer_len))"

datatype trailer_state =
  S_START | S_KEY | S_KEY_WS | S_SEP_WS | S_VALUE | S_VALUE_NL | S_VALUE_END | S_IGNORE

text \<open>\<open>ptr\<close> is the offset of \<^verbatim>\<open>iter->ptr\<close> in the buffer \<open>trailer_block\<close>.\<close>

record trailer_iterator =
  trailer_block :: string
  block_len :: nat
  ptr :: nat

text \<open>
  Modelled from the spec: \<^verbatim>\<open>GIT_ITEROVER\<close> is declared in the library's public headers,
  which are not among the sources; it is the non-zero EndOfSequence signal (\<open>-31\<close> in
  libgit2).
\<close>

definition GIT_ITEROVER :: int where
  "GIT_ITEROVER = - 31"

text \<open>
  \<^verbatim>\<open>git_message_trailer_iterator_new(out, message)\<close>: the return code and the handle
  stored through \<^verbatim>\<open>out\<close> (\<open>None\<close>: nothing stored). \<open>calloc_ok\<close> says whether
  \<^verbatim>\<open>git__calloc\<close> returns memory; when it does not, \<^verbatim>\<open>GITERR_CHECK_ALLOC\<close> returns
  \<open>-1\<close>.
\<close>

definition git_message_trailer_iterator_new ::
  "bool \<Rightarrow> string \<Rightarrow> int \<times> trailer_iterator option" where
  "git_message_trailer_iterator_new calloc_ok message =
     (if \<not> calloc_ok then (- 1, None)
      else (let (block, n) = extract_trailer_block message
            in (0, Some \<lparr>trailer_block = block, block_len = n, ptr = 0\<rparr>)))"

text \<open>
  \<^verbatim>\<open>git_message_trailer_iterator_free(iter)\<close>: the allocations handed to
  \<^verbatim>\<open>git__free\<close>, in order. A handle is \<open>None\<close> when it is \<^verbatim>\<open>NULL\<close>.
\<close>

datatype allocation = Block_buffer string | Iterator_struct

definition git_message_trailer_iterator_free :: "trailer_iterator option \<Rightarrow> allocation list" where
  "git_message_trailer_iterator_free iter =
     (case iter of
        None \<Rightarrow> []
      | Some it \<Rightarrow> [Block_buffer (trailer_block it), Iterator_struct])"

text \<open>
  The state machine of \<^verbatim>\<open>git_message_trailer_iterator_next\<close>, from one state to its
  \<^verbatim>\<open>goto ret\<close>. The arguments are the state, the buffer, \<^verbatim>\<open>iter->ptr\<close>, and what has
  been stored through \<^verbatim>\<open>key_out\<close> and \<^verbatim>\<open>value_out\<close> during this call (\<open>None\<close>:
  nothing yet); the result is the buffer, the pointer and the two stores at \<^verbatim>\<open>ret\<close>.
  \<^verbatim>\<open>NEXT\<close> moves the pointer, \<^verbatim>\<open>GOTO\<close> does not. The loop's test
  \<^verbatim>\<open>iter->ptr != 0\<close> compares the pointer with \<^verbatim>\<open>NULL\<close> and never fails.
\<close>

function trailer_fsm ::
  "trailer_state \<Rightarrow> string \<Rightarrow> nat \<Rightarrow> nat option \<Rightarrow> nat option
     \<Rightarrow> string \<times> nat \<times> nat option \<times> nat option" where
  "trailer_fsm S_START buf p key_out value_out =
     (if at buf p = NUL then (buf, p, key_out, value_out)
      else trailer_fsm S_KEY buf p (Some p) value_out)"
| "trailer_fsm S_KEY buf p key_out value_out =
     (if at buf p = NUL then (buf, p, key_out, value_out)
      else if isalnum (at buf p) \<or> at buf p = CHR ''-'' then
        trailer_fsm S_KEY buf (p + 1) key_out value_out
      else if at buf p = CHR '' '' \<or> at buf p = tab then
        trailer_fsm S_KEY_WS (buf[p := NUL]) (p + 1) key_out value_out
      else if at buf p \<in> set TRAILER_SEPARATORS then
        trailer_fsm S_SEP_WS (buf[p := NUL]) (p + 1) key_out value_out
      else trailer_fsm S_IGNORE buf p key_out value_out)"
| "trailer_fsm S_KEY_WS buf p key_out value_out =
     (if at buf p = NUL then (buf, p, key_out, value_out)
      else if at buf p = CHR '' '' \<or> at buf p = tab then
        trailer_fsm S_KEY_WS buf (p + 1) key_out value_out
      else if at buf p \<in> set TRAILER_SEPARATORS then
        trailer_fsm S_SEP_WS buf (p + 1) key_out value_out
      else trailer_fsm S_IGNORE buf p key_out value_out)"
| "trailer_fsm S_SEP_WS buf p key_out value_out =
     (if at buf p = NUL then (buf, p, key_out, value_out)
      else if at buf p = CHR '' '' \<or> at buf p = tab then
        trailer_fsm S_SEP_WS buf (p + 1) key_out value_out
      else trailer_fsm S_VALUE buf (p + 1) key_out (Some p))"
| "trailer_fsm S_VALUE buf p key_out value_out =
     (if at buf p = NUL then trailer_fsm S_VALUE_END buf p key_out value_out
      else if at buf p = nl then trailer_fsm S_VALUE_NL buf (p + 1) key_out value_out
      else trailer_fsm S_VALUE buf (p + 1) key_out value_out)"
| "trailer_fsm S_VALUE_NL buf p key_out value_out =
     (if at buf p = CHR '' '' then trailer_fsm S_VALUE buf (p + 1) key_out value_out
      else trailer_fsm S_VALUE_END (buf[p - 1 := NUL]) p key_out value_out)"
| "trailer_fsm S_VALUE_END buf p key_out value_out = (buf, p, key_out, value_out)"
| "trailer_fsm S_IGNORE buf p key_out value_out =
     (if at buf p = NUL then (buf, p, key_out, value_out)
      else if at buf p = nl then trailer_fsm S_START buf (p + 1) key_out value_out
      else trailer_fsm S_IGNORE buf (p + 1) key_out value_out)"
  by pat_completeness auto

definition state_rank :: "trailer_state \<Rightarrow> nat" where
  "state_rank st = (case st of S_START \<Rightarrow> 2 | S_KEY \<Rightarrow> 1 | S_KEY_WS \<Rightarrow> 1 | S_SEP_WS \<Rightarrow> 1
     | S_VALUE \<Rightarrow> 1 | S_VALUE_NL \<Rightarrow> 1 | S_VALUE_END \<Rightarrow> 0 | S_IGNORE \<Rightarrow> 0)"

lemma at_not_NUL_less: "at buf p \<noteq> NUL \<Longrightarrow> p < length buf"
  by (auto simp: at_def split: if_splits)

termination trailer_fsm
proof -
  have step: "length buf - Suc p < length buf - p" if "at buf p \<noteq> NUL" for buf p
    using at_not_NUL_less [OF that] by simp
  show ?thesis
    by (relation "measures [\<lambda>(st, buf, p, k, v). length buf - p,
                            \<lambda>(st, buf, p, k, v). state_rank st]")
       (auto simp: state_rank_def NUL_def tab_def nl_def intro!: step)
qed

text \<open>
  \<^verbatim>\<open>git_message_trailer_iterator_next(key_out, value_out, iter)\<close>: the return code, the
  offsets stored through \<^verbatim>\<open>key_out\<close> and \<^verbatim>\<open>value_out\<close> (\<open>None\<close>: the call stored
  nothing there, and the caller's variable keeps whatever it held), and the iterator after
  the call. \<^verbatim>\<open>rc\<close> is \<open>0\<close> at \<^verbatim>\<open>ret\<close>.
\<close>

record next_result =
  next_rc :: int
  next_key :: "nat option"
  next_value :: "nat option"
  next_iter :: trailer_iterator

definition git_message_trailer_iterator_next :: "trailer_iterator \<Rightarrow> next_result" where
  "git_message_trailer_iterator_next iter =
     (if at (trailer_block iter) (ptr iter) = NUL then
        \<lparr>next_rc = GIT_ITEROVER, next_key = None, next_value = None, next_iter = iter\<rparr>
      else (let (buf, p, key_out, value_out) =
                  trailer_fsm S_START (trailer_block iter) (ptr iter) None None
            in \<lparr>next_rc = 0, next_key = key_out, next_value = value_out,
                next_iter = iter\<lparr>trailer_block := buf, ptr := p\<rparr>\<rparr>))"

text \<open>The C string a pointer into the buffer denotes: the bytes before the next terminator.\<close>

definition c_string :: "string \<Rightarrow> nat \<Rightarrow> string" where
  "c_string buf p = takeWhile (\<lambda>c. c \<noteq> NUL) (drop p buf)"

text \<open>
  What the caller holds after a call: the strings at the two pointers, read in the buffer
  as the call left it; \<open>None\<close> for a pointer the call did not store.
\<close>

definition pair_seen :: "next_result \<Rightarrow> string option \<times> string option" where
  "pair_seen r =
     (map_option (c_string (trailer_block (next_iter r))) (next_key r),
      map_option (c_string (trailer_block (next_iter r))) (next_value r))"

declare trailer_fsm.simps [simp del]

lemma trailer_fsm_progress:
  "trailer_fsm st buf p k v = (buf', p', k', v') \<Longrightarrow>
     length buf' = length buf \<and> p \<le> p' \<and>
     (at buf p \<noteq> NUL \<and> st \<in> {S_START, S_KEY, S_KEY_WS, S_SEP_WS, S_IGNORE} \<longrightarrow> p < p')"
proof (induction st buf p k v rule: trailer_fsm.induct)
  case (1 buf p key_out value_out)
  then show ?case
    by (simp add: trailer_fsm.simps(1) [of buf p key_out value_out] split: if_splits)
next
  case (2 buf p key_out value_out)
  then show ?case
    by (auto simp add: trailer_fsm.simps(2) [of buf p key_out value_out] split: if_splits)
next
  case (3 buf p key_out value_out)
  then show ?case
    by (auto simp add: trailer_fsm.simps(3) [of buf p key_out value_out] split: if_splits)
next
  case (4 buf p key_out value_out)
  then show ?case
    by (auto simp add: trailer_fsm.simps(4) [of buf p key_out value_out] split: if_splits)
next
  case (5 buf p key_out value_out)
  then show ?case
    by (auto simp add: trailer_fsm.simps(5) [of buf p key_out value_out] split: if_splits)
next
  case (6 buf p key_out value_out)
  then show ?case
    by (auto simp add: trailer_fsm.simps(6) [of buf p key_out value_out] split: if_splits)
next
  case (7 buf p key_out value_out)
  then show ?case by (simp add: trailer_fsm.simps(7))
next
  case (8 buf p key_out value_out)
  then show ?case
    by (auto simp add: trailer_fsm.simps(8) [of buf p key_out value_out] split: if_splits)
qed

lemma next_progress:
  assumes "next_rc (git_message_trailer_iterator_next iter) = 0"
  shows "length (trailer_block (next_iter (git_message_trailer_iterator_next iter)))
           - ptr (next_iter (git_message_trailer_iterator_next iter))
         < length (trailer_block iter) - ptr iter"
proof -
  from assms have nz: "at (trailer_block iter) (ptr iter) \<noteq> NUL"
    by (auto simp: git_message_trailer_iterator_next_def GIT_ITEROVER_def split: if_splits)
  obtain buf p k v where
    r: "trailer_fsm S_START (trailer_block iter) (ptr iter) None None = (buf, p, k, v)"
    by (metis prod_cases4)
  from trailer_fsm_progress [OF r] nz
  have "length buf = length (trailer_block iter)" "ptr iter < p" by auto
  moreover from nz have "ptr iter < length (trailer_block iter)" by (rule at_not_NUL_less)
  ultimately show ?thesis
    using nz r by (simp add: git_message_trailer_iterator_next_def)
qed

text \<open>
  Create, then advance until a call returns a non-zero code: the sequence of what the
  caller holds after each call that returned \<open>0\<close>.
\<close>

function advance_all :: "trailer_iterator \<Rightarrow> (string option \<times> string option) list" where
  "advance_all iter =
     (let r = git_message_trailer_iterator_next iter
      in if next_rc r \<noteq> 0 then [] else pair_seen r # advance_all (next_iter r))"
  by pat_completeness auto
termination
proof (relation "measure (\<lambda>iter. length (trailer_block iter) - ptr iter)", goal_cases)
  case 1
  show ?case by simp
next
  case (2 iter r)
  then show ?case using next_progress [of iter] by simp
qed

declare advance_all.simps [simp del]

definition trailers_of :: "string \<Rightarrow> (string option \<times> string option) list" where
  "trailers_of message =
     (case git_message_trailer_iterator_new True message of
        (rc, None) \<Rightarrow> []
      | (rc, Some iter) \<Rightarrow> advance_all iter)"

text \<open>The bytes of the extracted block, without the terminator written after them.\<close>

definition trailer_block_bytes :: "string \<Rightarrow> string" where
  "trailer_block_bytes message =
     (let (block, n) = extract_trailer_block message in take n block)"

text \<open>
  \<^verbatim>\<open>git_message_trailers(message, cb, payload)\<close>. The callback gets the two strings (\<open>None\<close>
  for a pointer variable that was never assigned) and the payload, and returns its code
  and the payload as it left it. The loop returns the last \<^verbatim>\<open>rc\<close>, the iterator and the
  payload; the function returns its return value, the payload, and the allocations freed
  at \<^verbatim>\<open>ret\<close>.
\<close>

function git_message_trailers_loop ::
  "(string option \<Rightarrow> string option \<Rightarrow> 'p \<Rightarrow> int \<times> 'p) \<Rightarrow> int \<Rightarrow> trailer_iterator \<Rightarrow> 'p
     \<Rightarrow> int \<times> trailer_iterator \<times> 'p" where
  "git_message_trailers_loop cb rc iterator payload =
     (if rc \<noteq> GIT_ITEROVER then
        (let r = git_message_trailer_iterator_next iterator
         in if next_rc r \<noteq> 0 then (next_rc r, next_iter r, payload)
            else (let (rc', payload') = cb (fst (pair_seen r)) (snd (pair_seen r)) payload
                  in if rc' \<noteq> 0 then (rc', next_iter r, payload')
                     else git_message_trailers_loop cb rc' (next_iter r) payload'))
      else (rc, iterator, payload))"
  by pat_completeness auto
termination
proof (relation "measure (\<lambda>(cb, rc, iter, payload). length (trailer_block iter) - ptr iter)",
    goal_cases)
  case 1
  show ?case by simp
next
  case (2 cb rc iterator payload r x rc' payload')
  then show ?case using next_progress [of iterator] by simp
qed

declare git_message_trailers_loop.simps [simp del]

definition git_message_trailers ::
  "bool \<Rightarrow> string \<Rightarrow> (string option \<Rightarrow> string option \<Rightarrow> 'p \<Rightarrow> int \<times> 'p) \<Rightarrow> 'p
     \<Rightarrow> int \<times> 'p \<times> allocation list" where
  "git_message_trailers calloc_ok message cb payload =
     (case git_message_trailer_iterator_new calloc_ok message of
        (rc, None) \<Rightarrow> (rc, payload, [])
      | (rc, Some iterator) \<Rightarrow>
          (if rc \<noteq> 0 then (rc, payload, [])
           else (let (rc', iterator', payload') = git_message_trailers_loop cb rc iterator payload
                 in (0, payload', git_message_trailer_iterator_free (Some iterator')))))"

section \<open>The patch boundary, as the specification words it\<close>

text \<open>
  The specification's PatchBoundaryLocator: split the message after each line break, and
  return the offset of the first line that begins with \<^verbatim>\<open>---\<close>, the message's length
  when there is none. The message is the C string at the pointer.
\<close>

fun lines_of :: "string \<Rightarrow> string list" where
  "lines_of [] = []"
| "lines_of (c # cs) =
     (if c = nl then [c] # lines_of cs
      else (case lines_of cs of [] \<Rightarrow> [[c]] | l # ls \<Rightarrow> (c # l) # ls))"

fun spec_patch_start :: "string list \<Rightarrow> nat" where
  "spec_patch_start [] = 0"
| "spec_patch_start (l # ls) =
     (if take 3 l = ''---'' then 0 else length l + spec_patch_start ls)"

lemma c_string_stop: "at buf p = NUL \<Longrightarrow> c_string buf p = []"
  by (cases "drop p buf") (auto simp: c_string_def at_def split: if_splits dest: hd_drop_conv_nth)

lemma c_string_Cons: "c \<noteq> NUL \<Longrightarrow> c_string (c # cs) 0 = c # c_string cs 0"
  by (simp add: c_string_def)

lemma c_string_drop: "c_string (drop s buf) 0 = c_string buf s"
  by (simp add: c_string_def)

lemma lines_of_first:
  "at t 0 \<noteq> NUL \<Longrightarrow>
     lines_of (c_string t 0)
       = take (next_line t) t # lines_of (c_string (drop (next_line t) t) 0)"
proof (induction t)
  case Nil
  then show ?case by (simp add: at_def)
next
  case (Cons c cs)
  then have c: "c \<noteq> NUL" by (simp add: at_def)
  show ?case
  proof (cases "c = nl")
    case True
    with c show ?thesis by (simp add: c_string_Cons)
  next
    case False
    show ?thesis
    proof (cases "at cs 0 = NUL")
      case True
      then have "c_string cs 0 = []" by (rule c_string_stop)
      moreover from True have "next_line cs = 0" by (cases cs) (auto simp: at_def)
      ultimately show ?thesis using c False by (simp add: c_string_Cons)
    next
      case nz: False
      from Cons.IH [OF nz] c False show ?thesis by (simp add: c_string_Cons)
    qed
  qed
qed

lemma of_char_pos: "CHR 0x00 \<noteq> c \<Longrightarrow> 0 < (of_char c :: nat)"
proof -
  assume "CHR 0x00 \<noteq> c"
  then have "(of_char c :: nat) \<noteq> of_char (CHR 0x00)"
    by (simp only: of_char_eq_iff) auto
  then show ?thesis by simp
qed

lemma prefixcmp_zero_iff:
  "NUL \<notin> set p \<Longrightarrow> git__prefixcmp t p = 0 \<longleftrightarrow> take (length p) t = p"
  by (induction t p rule: git__prefixcmp.induct) (auto simp: NUL_def of_char_pos)

lemma dashes_next_line: "take 3 t = ''---'' \<Longrightarrow> 3 \<le> next_line t"
proof -
  assume a: "take 3 t = ''---''"
  then obtain a b c r where t: "t = a # b # c # r"
    by (cases t; cases "tl t"; cases "tl (tl t)") auto
  with a show ?thesis by (auto simp: NUL_def nl_def)
qed

lemma first_line_dashes:
  "take 3 (take (next_line t) t) = ''---'' \<longleftrightarrow> take 3 t = ''---''"
proof
  assume "take 3 t = ''---''"
  then show "take 3 (take (next_line t) t) = ''---''"
    using dashes_next_line [of t] by (simp add: min_def)
next
  assume a: "take 3 (take (next_line t) t) = ''---''"
  then have "length (take 3 (take (next_line t) t)) = 3" by simp
  then have "3 \<le> next_line t" by simp
  with a show "take 3 t = ''---''" by (simp add: min_def)
qed

lemma find_patch_start_loop_spec:
  "find_patch_start_loop str s = s + spec_patch_start (lines_of (c_string str s))"
proof (induction str s rule: find_patch_start_loop.induct)
  case (1 str s)
  show ?case
  proof (cases "at str s = NUL")
    case True
    then show ?thesis
      by (simp add: find_patch_start_loop.simps [of str s] c_string_stop)
  next
    case nz: False
    let ?t = "drop s str"
    from nz have nz': "at ?t 0 \<noteq> NUL" by (simp add: at_drop)
    have split: "lines_of (c_string str s)
        = take (next_line ?t) ?t # lines_of (c_string str (s + next_line ?t))"
      using lines_of_first [OF nz'] by (simp add: c_string_drop add.commute)
    have pre: "git__prefixcmp ?t ''---'' = 0 \<longleftrightarrow> take 3 ?t = ''---''"
      using prefixcmp_zero_iff [of "''---''" ?t] by (simp add: NUL_def numeral_3_eq_3)
    have "(take 3 (take (next_line ?t) ?t) = ''---'') = (take 3 ?t = ''---'')"
      by (rule first_line_dashes)
    moreover have "length (take (next_line ?t) ?t) = next_line ?t"
      using next_line_le [of ?t] by simp
    ultimately have spec: "spec_patch_start (lines_of (c_string str s))
        = (if take 3 ?t = ''---'' then 0
           else next_line ?t + spec_patch_start (lines_of (c_string str (s + next_line ?t))))"
      by (simp only: split spec_patch_start.simps)
    show ?thesis
    proof (cases "git__prefixcmp ?t ''---'' = 0")
      case True
      with nz pre show ?thesis
        by (simp add: find_patch_start_loop.simps [of str s] spec)
    next
      case False
      with nz pre "1.IH" show ?thesis
        by (simp add: find_patch_start_loop.simps [of str s] spec)
    qed
  qed
qed

section \<open>Line starts\<close>

text \<open>An offset is a line start when it is \<open>0\<close> or follows a line break.\<close>

definition is_line_start :: "string \<Rightarrow> nat \<Rightarrow> bool" where
  "is_line_start buf p = (p = 0 \<or> at buf (p - 1) = nl)"

lemma at_drop_add: "at (drop s buf) k = at buf (s + k)"
  by (auto simp: at_def)

lemma at_Cons_Suc: "at (a # t) (Suc k) = at t k"
  by (simp add: at_def)

lemma next_line_end:
  "(0 < next_line t \<and> at t (next_line t - 1) = nl) \<or> at t (next_line t) = NUL"
proof (induction t)
  case Nil
  then show ?case by (simp add: at_def)
next
  case (Cons a t)
  show ?case
  proof (cases "a = NUL \<or> a = nl")
    case True
    then show ?thesis by (auto simp: at_def)
  next
    case False
    then have n: "next_line (a # t) = Suc (next_line t)" by simp
    from Cons.IH show ?thesis
    proof
      assume h: "0 < next_line t \<and> at t (next_line t - 1) = nl"
      then obtain k where k: "next_line t = Suc k" by (cases "next_line t") auto
      with h have "at t k = nl" by simp
      then have "at (a # t) (Suc k) = nl" by (simp only: at_Cons_Suc)
      then show ?thesis unfolding n k by simp
    next
      assume "at t (next_line t) = NUL"
      then have "at (a # t) (Suc (next_line t)) = NUL" by (simp only: at_Cons_Suc)
      then show ?thesis unfolding n by simp
    qed
  qed
qed

lemma last_line_loop_ge: "at buf i = nl \<Longrightarrow> i < k \<Longrightarrow> int i + 1 \<le> last_line_loop buf k"
proof (induction k)
  case 0
  then show ?case by simp
next
  case (Suc k)
  then show ?case by (cases "i = k") auto
qed

lemma last_line_ge:
  assumes "is_line_start buf e" "e < n"
  shows "int e \<le> last_line buf n"
proof (cases "e = 0")
  case True
  with assms(2) show ?thesis
    using last_line_loop_nonneg [of buf "n - 1"] by (simp add: last_line_def)
next
  case False
  with assms(1) have nl: "at buf (e - 1) = nl" by (simp add: is_line_start_def)
  from False assms(2) have "e - 1 < n - 1" "n \<noteq> 0" "n \<noteq> 1" by auto
  with last_line_loop_ge [OF nl, of "n - 1"] False show ?thesis
    by (simp add: last_line_def)
qed

lemma find_title_end_props:
  assumes "is_line_start buf s" "\<forall>i<len. at buf i \<noteq> NUL" "find_title_end buf len s < len"
  shows "is_line_start buf (find_title_end buf len s)
       \<and> at buf (find_title_end buf len s) \<noteq> COMMENT_LINE_CHAR
       \<and> is_blank_line (drop (find_title_end buf len s) buf)"
  using assms
proof (induction buf len s rule: find_title_end.induct)
  case (1 buf len s)
  let ?n = "next_line (drop s buf)"
  have stop: "find_title_end buf len (s + ?n) = s + ?n" if "len \<le> s + ?n"
    using that by (simp add: find_title_end.simps [of buf len "s + ?n"])
  have ls: "is_line_start buf (s + ?n)" if "find_title_end buf len (s + ?n) < len"
  proof -
    from next_line_end [of "drop s buf"]
    consider "0 < ?n" "at buf (s + ?n - 1) = nl" | "at buf (s + ?n) = NUL"
      by (auto simp: at_drop_add)
    then show ?thesis
    proof cases
      case 1
      then show ?thesis by (simp add: is_line_start_def)
    next
      case 2
      with "1.prems"(2) have "len \<le> s + ?n" by (meson not_le)
      with stop that show ?thesis by simp
    qed
  qed
  show ?case
  proof (cases "s < len")
    case False
    with "1.prems"(3) show ?thesis by (simp add: find_title_end.simps [of buf len s])
  next
    case True
    show ?thesis
    proof (cases "at buf s = COMMENT_LINE_CHAR")
      case c: True
      with True have eq: "find_title_end buf len s = find_title_end buf len (s + ?n)"
        by (simp add: find_title_end.simps [of buf len s])
      with "1.prems"(3) have "find_title_end buf len (s + ?n) < len" by simp
      from "1.IH"(1) [OF True c ls [OF this] "1.prems"(2) this] eq show ?thesis by simp
    next
      case nc: False
      show ?thesis
      proof (cases "is_blank_line (drop s buf)")
        case b: True
        with True nc have "find_title_end buf len s = s"
          by (simp add: find_title_end.simps [of buf len s])
        with b nc "1.prems"(1) show ?thesis by simp
      next
        case nb: False
        with True nc have eq: "find_title_end buf len s = find_title_end buf len (s + ?n)"
          by (simp add: find_title_end.simps [of buf len s])
        with "1.prems"(3) have "find_title_end buf len (s + ?n) < len" by simp
        from "1.IH"(2) [OF True nc nb ls [OF this] "1.prems"(2) this] eq show ?thesis by simp
      qed
    qed
  qed
qed

text \<open>The trimmed region lies inside the C string: no terminator before its end.\<close>

lemma concat_lines_of: "concat (lines_of s) = s"
  by (induction s) (auto split: list.splits)

lemma spec_patch_start_le: "spec_patch_start ls \<le> length (concat ls)"
  by (induction ls) auto

lemma c_string_no_NUL: "i < length (c_string buf 0) \<Longrightarrow> at buf i \<noteq> NUL"
proof -
  assume a: "i < length (c_string buf 0)"
  let ?t = "takeWhile (\<lambda>c. c \<noteq> NUL) buf"
  from a have i: "i < length ?t" by (simp add: c_string_def)
  then have "?t ! i \<in> set ?t" by (rule nth_mem)
  then have "?t ! i \<noteq> NUL" by (auto dest: set_takeWhileD)
  moreover from i have "?t ! i = buf ! i" by (rule takeWhile_nth)
  moreover from i have "i < length buf"
    using length_takeWhile_le [of "\<lambda>c. c \<noteq> NUL" buf] by linarith
  ultimately show ?thesis by (simp add: at_def)
qed

lemma find_patch_start_le: "find_patch_start str \<le> length (c_string str 0)"
  using spec_patch_start_le [of "lines_of (c_string str 0)"]
  by (simp add: find_patch_start_def find_patch_start_loop_spec concat_lines_of)

lemma find_trailer_end_le: "find_trailer_end buf len \<le> len"
  by (simp add: find_trailer_end_def)

lemma trimmed_region_no_NUL:
  "i < find_trailer_end message (find_patch_start message) \<Longrightarrow> at message i \<noteq> NUL"
  using find_trailer_end_le [of message "find_patch_start message"]
    find_patch_start_le [of message]
  by (intro c_string_no_NUL) linarith

section \<open>Extracting again from the trailer block\<close>

text \<open>
  What the backward scan leaves after the blank line at which it accepts: in the accepted
  text, a blank line that is no comment is followed by blank lines and comment lines only
  (\<open>tail_ok\<close>). A buffer of that shape has no trailer block of its own, since its first
  blank line ends its title.
\<close>

definition comment_or_blank :: "string \<Rightarrow> nat \<Rightarrow> bool" where
  "comment_or_blank buf q = (at buf q = COMMENT_LINE_CHAR \<or> is_blank_line (drop q buf))"

definition blank_tail :: "string \<Rightarrow> nat \<Rightarrow> int \<Rightarrow> bool" where
  "blank_tail buf len l =
     (\<forall>q. is_line_start buf q \<and> l < int q \<and> q < len \<longrightarrow> comment_or_blank buf q)"

definition tail_ok :: "string \<Rightarrow> nat \<Rightarrow> int \<Rightarrow> bool" where
  "tail_ok buf len l =
     (\<forall>q. is_line_start buf q \<and> l < int q \<and> q < len
          \<and> at buf q \<noteq> COMMENT_LINE_CHAR \<and> is_blank_line (drop q buf)
        \<longrightarrow> blank_tail buf len (int q))"

lemma blank_tail_mono: "blank_tail buf len l \<Longrightarrow> l \<le> l' \<Longrightarrow> blank_tail buf len l'"
  by (auto simp: blank_tail_def)

lemma tail_ok_mono: "tail_ok buf len l \<Longrightarrow> l \<le> l' \<Longrightarrow> tail_ok buf len l'"
  by (auto simp: tail_ok_def)

lemma line_start_below:
  assumes "is_line_start buf q" "last_line buf n < int q"
  shows "n \<le> q"
  using last_line_ge [OF assms(1), of n] assms(2) by linarith

lemma blank_tail_step:
  assumes "blank_tail buf len l" "0 \<le> l" "comment_or_blank buf (nat l)"
  shows "blank_tail buf len (last_line buf (nat l))"
  unfolding blank_tail_def
proof (intro allI impI)
  fix q
  assume q: "is_line_start buf q \<and> last_line buf (nat l) < int q \<and> q < len"
  then have "nat l \<le> q" using line_start_below by blast
  then consider "q = nat l" | "l < int q" using assms(2) by linarith
  then show "comment_or_blank buf q"
  proof cases
    case 1
    with assms(3) show ?thesis by simp
  next
    case 2
    with assms(1) q show ?thesis by (auto simp: blank_tail_def)
  qed
qed

lemma tail_ok_step:
  assumes "tail_ok buf len l" "0 \<le> l"
    and "at buf (nat l) \<noteq> COMMENT_LINE_CHAR \<and> is_blank_line (drop (nat l) buf)
           \<longrightarrow> blank_tail buf len l"
  shows "tail_ok buf len (last_line buf (nat l))"
  unfolding tail_ok_def
proof (intro allI impI)
  fix q
  assume q: "is_line_start buf q \<and> last_line buf (nat l) < int q \<and> q < len
      \<and> at buf q \<noteq> COMMENT_LINE_CHAR \<and> is_blank_line (drop q buf)"
  then have "nat l \<le> q" using line_start_below by blast
  then consider "q = nat l" | "l < int q" using assms(2) by linarith
  then show "blank_tail buf len (int q)"
  proof cases
    case 1
    with assms(2,3) q show ?thesis by simp
  next
    case 2
    with assms(1) q show ?thesis by (auto simp: tail_ok_def)
  qed
qed

lemma accepted_start:
  assumes nz: "\<forall>i<len. at buf i \<noteq> NUL" and l: "0 \<le> l" "l < int len"
    and ok: "tail_ok buf len l"
  shows "tail_ok buf len (int (nat l + next_line (drop (nat l) buf)) - 1)
       \<and> (is_line_start buf (nat l + next_line (drop (nat l) buf))
          \<or> len \<le> nat l + next_line (drop (nat l) buf))"
proof -
  let ?n = "next_line (drop (nat l) buf)"
  from l nz have "at buf (nat l) \<noteq> NUL" by simp
  then have pos: "0 < ?n" by (intro next_line_pos) (simp add: at_drop)
  with l have "l \<le> int (nat l + ?n) - 1" by linarith
  with ok have 1: "tail_ok buf len (int (nat l + ?n) - 1)" by (rule tail_ok_mono)
  from next_line_end [of "drop (nat l) buf"]
  have "at buf (nat l + ?n - 1) = nl \<or> at buf (nat l + ?n) = NUL"
    using pos by (auto simp: at_drop_add)
  then have "is_line_start buf (nat l + ?n) \<or> len \<le> nat l + ?n"
  proof
    assume "at buf (nat l + ?n - 1) = nl"
    then show ?thesis by (simp add: is_line_start_def)
  next
    assume "at buf (nat l + ?n) = NUL"
    with nz have "len \<le> nat l + ?n" by (meson not_le)
    then show ?thesis by simp
  qed
  with 1 show ?thesis by simp
qed

lemma scan_accept_tail:
  assumes "\<forall>i<len. at buf i \<noteq> NUL" "l < int len" "tail_ok buf len l"
    and "os \<longrightarrow> blank_tail buf len l"
    and "find_trailer_start_loop buf len e l os rp tr ntl pcl \<noteq> len"
  shows "tail_ok buf len (int (find_trailer_start_loop buf len e l os rp tr ntl pcl) - 1)
       \<and> (is_line_start buf (find_trailer_start_loop buf len e l os rp tr ntl pcl)
          \<or> len \<le> find_trailer_start_loop buf len e l os rp tr ntl pcl)"
  using assms
proof (induction buf len e l os rp tr ntl pcl rule: find_trailer_start_loop.induct)
  case (1 buf len e l os rp tr ntl pcl)
  note nz = "1.prems"(1)
  let ?bol = "drop (nat l) buf"
  let ?l' = "last_line buf (nat l)"
  show ?case
  proof (cases "int e \<le> l")
    case False
    with "1.prems"(5) show ?thesis
      by (simp add: find_trailer_start_loop.simps [of buf len e l])
  next
    case True
    then have l0: "0 \<le> l" by linarith
    have l'len: "?l' < int len" using last_line_nat_less [OF l0, of buf] "1.prems"(2) by linarith
    show ?thesis
    proof (cases "at ?bol 0 = COMMENT_LINE_CHAR")
      case c: True
      then have cb: "comment_or_blank buf (nat l)" by (simp add: comment_or_blank_def at_drop)
      have eq: "find_trailer_start_loop buf len e l os rp tr ntl pcl
          = find_trailer_start_loop buf len e ?l' os rp tr (ntl + pcl) 0"
        using True c by (simp add: find_trailer_start_loop.simps [of buf len e l])
      have ok': "tail_ok buf len ?l'"
        using "1.prems"(3) l0 c by (intro tail_ok_step) (auto simp: at_drop)
      have bt': "os \<longrightarrow> blank_tail buf len ?l'"
        using "1.prems"(4) l0 cb by (auto intro: blank_tail_step)
      from "1.IH"(1) [OF True refl c nz l'len ok' bt'] "1.prems"(5) eq
      show ?thesis by simp
    next
      case nc: False
      show ?thesis
      proof (cases "is_blank_line ?bol")
        case b: True
        then have cb: "comment_or_blank buf (nat l)" by (simp add: comment_or_blank_def)
        show ?thesis
        proof (cases os)
          case os: True
          have eq: "find_trailer_start_loop buf len e l os rp tr ntl pcl
              = find_trailer_start_loop buf len e ?l' os rp tr ntl pcl"
            using True nc b os by (simp add: find_trailer_start_loop.simps [of buf len e l])
          have ok': "tail_ok buf len ?l'"
            using "1.prems"(3,4) l0 os by (intro tail_ok_step) auto
          have bt': "os \<longrightarrow> blank_tail buf len ?l'"
            using "1.prems"(4) l0 cb by (auto intro: blank_tail_step)
          from "1.IH"(2) [OF True refl nc b os nz l'len ok' bt'] "1.prems"(5) eq
          show ?thesis by simp
        next
          case nos: False
          have "find_trailer_start_loop buf len e l os rp tr ntl pcl
              = nat l + next_line ?bol"
            using True nc b nos "1.prems"(5)
            by (simp add: find_trailer_start_loop.simps [of buf len e l] Let_def
                split: if_splits)
          with accepted_start [OF nz l0 "1.prems"(2,3)] show ?thesis by simp
        qed
      next
        case nb: False
        have ok': "tail_ok buf len ?l'"
          using "1.prems"(3) l0 nb by (intro tail_ok_step) auto
        show ?thesis
        proof (cases "has_generated_prefix ?bol")
          case g: True
          have eq: "find_trailer_start_loop buf len e l os rp tr ntl pcl
              = find_trailer_start_loop buf len e ?l' False True (tr + 1) ntl 0"
            using True nc nb g by (simp add: find_trailer_start_loop.simps [of buf len e l])
          from "1.IH"(3) [OF True refl nc nb g nz l'len ok'] "1.prems"(5) eq
          show ?thesis by simp
        next
          case ng: False
          show ?thesis
          proof (cases "1 \<le> find_separator ?bol TRAILER_SEPARATORS \<and> \<not> isspace (at ?bol 0)")
            case t: True
            have eq: "find_trailer_start_loop buf len e l os rp tr ntl pcl
                = find_trailer_start_loop buf len e ?l' False rp (tr + 1) ntl 0"
              using True nc nb ng t by (simp add: find_trailer_start_loop.simps [of buf len e l])
            from "1.IH"(4) [OF True refl nc nb ng t nz l'len ok'] "1.prems"(5) eq
            show ?thesis by simp
          next
            case nt: False
            show ?thesis
            proof (cases "isspace (at ?bol 0)")
              case s: True
              have eq: "find_trailer_start_loop buf len e l os rp tr ntl pcl
                  = find_trailer_start_loop buf len e ?l' False rp tr ntl (pcl + 1)"
                using True nc nb ng nt s
                by (simp add: find_trailer_start_loop.simps [of buf len e l])
              from "1.IH"(5) [OF True refl nc nb ng nt s nz l'len ok'] "1.prems"(5) eq
              show ?thesis by simp
            next
              case ns: False
              have eq: "find_trailer_start_loop buf len e l os rp tr ntl pcl
                  = find_trailer_start_loop buf len e ?l' False rp tr (ntl + 1 + pcl) 0"
                using True nc nb ng nt ns
                by (simp add: find_trailer_start_loop.simps [of buf len e l])
              from "1.IH"(6) [OF True refl nc nb ng nt ns nz l'len ok'] "1.prems"(5) eq
              show ?thesis by simp
            qed
          qed
        qed
      qed
    qed
  qed
qed

lemma last_line_loop_line_start:
  "last_line_loop buf k = 0 \<or> (\<exists>i. last_line_loop buf k = int i + 1 \<and> at buf i = nl)"
  by (induction k) auto

lemma last_line_line_start:
  assumes "0 \<le> last_line buf n"
  shows "is_line_start buf (nat (last_line buf n))"
proof (cases "n = 0 \<or> n = 1")
  case True
  with assms show ?thesis by (auto simp: last_line_def is_line_start_def)
next
  case False
  then have eq: "last_line buf n = last_line_loop buf (n - 1)" by (simp add: last_line_def)
  from last_line_loop_line_start [of buf "n - 1"] show ?thesis
  proof
    assume "last_line_loop buf (n - 1) = 0"
    with eq show ?thesis by (simp add: is_line_start_def)
  next
    assume "\<exists>i. last_line_loop buf (n - 1) = int i + 1 \<and> at buf i = nl"
    then obtain i where i: "last_line_loop buf (n - 1) = int i + 1" "at buf i = nl" by blast
    have "nat (int i + 1) = Suc i" by arith
    with eq i show ?thesis by (simp add: is_line_start_def)
  qed
qed

lemma scan_all_blank:
  assumes "os"
    and "\<forall>q. is_line_start buf q \<and> e \<le> q \<and> int q \<le> l \<longrightarrow> comment_or_blank buf q"
    and "0 \<le> l \<longrightarrow> is_line_start buf (nat l)"
  shows "find_trailer_start_loop buf len e l os rp tr ntl pcl = len"
  using assms
proof (induction buf len e l os rp tr ntl pcl rule: find_trailer_start_loop.induct)
  case (1 buf len e l os rp tr ntl pcl)
  let ?bol = "drop (nat l) buf"
  let ?l' = "last_line buf (nat l)"
  show ?case
  proof (cases "int e \<le> l")
    case False
    then show ?thesis by (simp add: find_trailer_start_loop.simps [of buf len e l])
  next
    case True
    then have l0: "0 \<le> l" by linarith
    with "1.prems"(3) have "is_line_start buf (nat l)" by simp
    with "1.prems"(2) True l0 have cb: "comment_or_blank buf (nat l)" by simp
    have less: "?l' < l" using last_line_nat_less [OF l0] .
    have all': "\<forall>q. is_line_start buf q \<and> e \<le> q \<and> int q \<le> ?l' \<longrightarrow> comment_or_blank buf q"
      using "1.prems"(2) less by auto
    have ls': "0 \<le> ?l' \<longrightarrow> is_line_start buf (nat ?l')"
      by (simp add: last_line_line_start)
    show ?thesis
    proof (cases "at ?bol 0 = COMMENT_LINE_CHAR")
      case c: True
      from "1.IH"(1) [OF True refl c "1.prems"(1) all' ls'] True c show ?thesis
        by (simp add: find_trailer_start_loop.simps [of buf len e l])
    next
      case nc: False
      with cb have b: "is_blank_line ?bol" by (simp add: comment_or_blank_def at_drop)
      from "1.IH"(2) [OF True refl nc b "1.prems"(1) "1.prems"(1) all' ls'] True nc b "1.prems"(1)
      show ?thesis
        by (simp add: find_trailer_start_loop.simps [of buf len e l])
    qed
  qed
qed

lemma no_block_in_blank_tail:
  assumes ok: "tail_ok buf (length buf) (- 1)" and nz: "\<forall>i<len. at buf i \<noteq> NUL"
  shows "find_trailer_start buf len = len"
proof (cases "find_title_end buf len 0 < len")
  case False
  then have "\<not> int (find_title_end buf len 0) \<le> last_line buf len"
    using last_line_less [of buf len] by linarith
  then show ?thesis
    by (simp add: find_trailer_start_def
        find_trailer_start_loop.simps [of buf len "find_title_end buf len 0" "last_line buf len"])
next
  case True
  let ?e = "find_title_end buf len 0"
  have "is_line_start buf 0" by (simp add: is_line_start_def)
  from find_title_end_props [OF this nz True]
  have e: "is_line_start buf ?e" "at buf ?e \<noteq> COMMENT_LINE_CHAR" "is_blank_line (drop ?e buf)"
    by simp_all
  have len: "len \<le> length buf"
  proof (rule ccontr)
    assume "\<not> len \<le> length buf"
    then have "length buf < len" by simp
    with nz have "at buf (length buf) \<noteq> NUL" by blast
    then show False by (simp add: at_def)
  qed
  with True have "?e < length buf" by linarith
  with ok e have bt: "blank_tail buf (length buf) (int ?e)"
    by (auto simp: tail_ok_def)
  have all: "\<forall>q. is_line_start buf q \<and> ?e \<le> q \<and> int q \<le> last_line buf len
      \<longrightarrow> comment_or_blank buf q"
  proof (intro allI impI)
    fix q
    assume q: "is_line_start buf q \<and> ?e \<le> q \<and> int q \<le> last_line buf len"
    then have "q < length buf" using last_line_less [of buf len] len by linarith
    show "comment_or_blank buf q"
    proof (cases "q = ?e")
      case True
      with e show ?thesis by (simp add: comment_or_blank_def)
    next
      case False
      with q have "int ?e < int q" by linarith
      with bt q \<open>q < length buf\<close> show ?thesis by (auto simp: blank_tail_def)
    qed
  qed
  have "0 \<le> last_line buf len \<longrightarrow> is_line_start buf (nat (last_line buf len))"
    by (simp add: last_line_line_start)
  from scan_all_blank [OF _ all this, of True] show ?thesis
    by (simp add: find_trailer_start_def)
qed

lemma is_blank_line_take: "is_blank_line t \<Longrightarrow> is_blank_line (take k t)"
proof (induction t arbitrary: k)
  case Nil
  then show ?case by simp
next
  case (Cons c cs)
  then show ?case by (cases k) (auto split: if_splits)
qed

lemma is_blank_line_untake:
  "is_blank_line (take k t) \<Longrightarrow> j < k \<Longrightarrow> at t j = nl \<Longrightarrow> is_blank_line t"
proof (induction t arbitrary: k j)
  case Nil
  then show ?case by simp
next
  case (Cons c cs)
  from Cons.prems(2) obtain k' where k: "k = Suc k'" by (cases k) auto
  show ?case
  proof (cases "c \<noteq> NUL \<and> c \<noteq> nl \<and> isspace c")
    case True
    with Cons.prems(3) obtain j' where j: "j = Suc j'" by (cases j) (auto simp: at_def)
    from Cons.prems(1) True k have "is_blank_line (take k' cs)" by simp
    moreover from Cons.prems(2) k j have "j' < k'" by simp
    moreover from Cons.prems(3) j have "at cs j' = nl" by (simp add: at_Cons_Suc)
    ultimately have "is_blank_line cs" by (rule Cons.IH)
    with True show ?thesis by simp
  next
    case False
    with Cons.prems(1) k show ?thesis by auto
  qed
qed

lemma block_tail_ok:
  assumes ok: "tail_ok m te (int ts - 1)" and ls: "is_line_start m ts"
    and le: "ts \<le> te" "te \<le> length m"
  shows "tail_ok (take (te - ts) (drop ts m)) (te - ts) (- 1)"
proof -
  let ?b = "take (te - ts) (drop ts m)"
  have len: "length ?b = te - ts" using le by simp
  have at_b: "at ?b p = at m (ts + p)" if "p < te - ts" for p
  proof -
    from that le have "ts + p < length m" "p < length m - ts" by linarith+
    with that show ?thesis by (simp add: at_def)
  qed
  have drop_b: "drop p ?b = take (te - ts - p) (drop (ts + p) m)" for p
    by (simp add: drop_take add.commute)
  have ls_b: "is_line_start m (ts + p)" if "is_line_start ?b p" "p \<le> te - ts" for p
  proof (cases "p = 0")
    case True
    with ls show ?thesis by simp
  next
    case False
    with that(1) have n: "at ?b (p - 1) = nl" by (simp add: is_line_start_def)
    from False that(2) have "p - 1 < te - ts" by linarith
    from at_b [OF this] n have "at m (ts + (p - 1)) = nl" by simp
    moreover from False have "ts + p - 1 = ts + (p - 1)" by simp
    ultimately show ?thesis using False by (simp add: is_line_start_def)
  qed
  show ?thesis
    unfolding tail_ok_def blank_tail_def
  proof (intro allI impI)
    fix q q'
    assume q: "is_line_start ?b q \<and> - 1 < int q \<and> q < te - ts
        \<and> at ?b q \<noteq> COMMENT_LINE_CHAR \<and> is_blank_line (drop q ?b)"
    assume q': "is_line_start ?b q' \<and> int q < int q' \<and> q' < te - ts"
    from q' have pos: "q' \<noteq> 0" by linarith
    with q' have "at ?b (q' - 1) = nl" by (simp add: is_line_start_def)
    moreover from pos q' have "q' - 1 < te - ts" by linarith
    ultimately have nl_m: "at m (ts + (q' - 1)) = nl" using at_b [of "q' - 1"] by simp
    have j: "q' - 1 - q < te - ts - q" using q q' pos by linarith
    have idx: "ts + q + (q' - 1 - q) = ts + (q' - 1)" using q' pos by linarith
    have "at (drop (ts + q) m) (q' - 1 - q) = nl"
      unfolding at_drop_add idx by (rule nl_m)
    with q j have blank_m: "is_blank_line (drop (ts + q) m)"
      by (auto simp: drop_b intro: is_blank_line_untake)
    from q have qlt: "q < te - ts" by simp
    from q' have q'lt: "q' < te - ts" by simp
    from q at_b [OF qlt] have "at m (ts + q) \<noteq> COMMENT_LINE_CHAR" by simp
    moreover from q have "is_line_start m (ts + q)" by (intro ls_b) simp_all
    moreover from q le have "int ts - 1 < int (ts + q)" "ts + q < te" by linarith+
    ultimately have bt: "blank_tail m te (int (ts + q))"
      using ok blank_m by (auto simp: tail_ok_def)
    from q' have "is_line_start m (ts + q')" by (intro ls_b) simp_all
    moreover from q' have "int (ts + q) < int (ts + q')" "ts + q' < te" by linarith+
    ultimately have "comment_or_blank m (ts + q')" using bt by (auto simp: blank_tail_def)
    then show "comment_or_blank ?b q'"
      unfolding comment_or_blank_def
    proof
      assume "at m (ts + q') = COMMENT_LINE_CHAR"
      with at_b [OF q'lt]
      show "at ?b q' = COMMENT_LINE_CHAR \<or> is_blank_line (drop q' ?b)" by simp
    next
      assume "is_blank_line (drop (ts + q') m)"
      then have "is_blank_line (drop q' ?b)" by (simp add: drop_b is_blank_line_take)
      then show "at ?b q' = COMMENT_LINE_CHAR \<or> is_blank_line (drop q' ?b)" by simp
    qed
  qed
qed

lemma no_line_start_after_last:
  assumes "is_line_start buf q" "last_line buf n < int q" "q < n"
  shows False
  using line_start_below [OF assms(1,2)] assms(3) by simp

lemma trimmed_region_le_length:
  "find_trailer_end message (find_patch_start message) \<le> length message"
proof -
  have "length (c_string message 0) \<le> length message"
    by (simp add: c_string_def length_takeWhile_le)
  with find_trailer_end_le [of message "find_patch_start message"]
    find_patch_start_le [of message]
  show ?thesis by linarith
qed

lemma trailer_block_bytes_eq:
  "trailer_block_bytes message
     = take (find_trailer_end message (find_patch_start message)
             - find_trailer_start message (find_trailer_end message (find_patch_start message)))
         (drop (find_trailer_start message (find_trailer_end message (find_patch_start message)))
            message)"
  using trimmed_region_le_length [of message]
  by (simp add: trailer_block_bytes_def extract_trailer_block_def Let_def)

lemma block_has_blank_tail:
  "tail_ok (trailer_block_bytes message) (length (trailer_block_bytes message)) (- 1)"
proof -
  let ?te = "find_trailer_end message (find_patch_start message)"
  let ?ts = "find_trailer_start message ?te"
  let ?b = "take (?te - ?ts) (drop ?ts message)"
  have te: "?te \<le> length message" by (rule trimmed_region_le_length)
  have b: "trailer_block_bytes message = ?b" by (rule trailer_block_bytes_eq)
  show ?thesis
  proof (cases "?ts < ?te")
    case False
    then show ?thesis by (simp add: b tail_ok_def)
  next
    case True
    let ?l = "last_line message ?te"
    have nz: "\<forall>i<?te. at message i \<noteq> NUL" by (simp add: trimmed_region_no_NUL)
    have l: "?l < int ?te" by (rule last_line_less)
    have ok0: "tail_ok message ?te ?l"
      by (auto simp: tail_ok_def dest: no_line_start_after_last)
    have bt0: "True \<longrightarrow> blank_tail message ?te ?l"
      by (auto simp: blank_tail_def dest: no_line_start_after_last)
    from True have ne: "find_trailer_start_loop message ?te (find_title_end message ?te 0) ?l
        True False 0 0 0 \<noteq> ?te"
      by (simp add: find_trailer_start_def)
    from scan_accept_tail [OF nz l ok0 bt0 ne] True
    have "tail_ok message ?te (int ?ts - 1)" "is_line_start message ?ts"
      by (simp_all add: find_trailer_start_def)
    from block_tail_ok [OF this _ te] True have "tail_ok ?b (?te - ?ts) (- 1)" by simp
    moreover from te have "length ?b = ?te - ?ts" by simp
    ultimately show ?thesis by (simp add: b)
  qed
qed

lemma advance_all_empty_block:
  "advance_all \<lparr>trailer_block = [NUL], block_len = 0, ptr = 0\<rparr> = []"
  by (simp add: advance_all.simps [of "\<lparr>trailer_block = [NUL], block_len = 0, ptr = 0\<rparr>"]
      git_message_trailer_iterator_next_def at_def GIT_ITEROVER_def)

lemma trailers_of_no_block:
  assumes "find_trailer_start message (find_trailer_end message (find_patch_start message))
           = find_trailer_end message (find_patch_start message)"
  shows "trailers_of message = []"
  using assms
  by (simp add: trailers_of_def git_message_trailer_iterator_new_def extract_trailer_block_def
      Let_def advance_all_empty_block)

section \<open>The trailer block locator, as the specification words it\<close>

text \<open>
  Section 4.3 of the specification describes the locator over the lines of the trimmed
  region. The definitions below follow its words and use no function of the source: a line
  is a list of bytes that ends with its line break (the last line of a region may have
  none), as \<open>lines_of\<close> cuts it, and the classes of lines are predicates on such a list.
  Only the configuration is shared with the source: the comment marker, the set of
  separators and the recognized prefixes.
\<close>

text \<open>
  White space is the six ASCII white-space bytes; the alphanumeric bytes are the ASCII digits
  and letters. Section 4.3 does not say which bytes make the token of a trailer line; it is
  taken to be made as a key is: ``keys are non-empty sequences of alphanumeric characters
  and hyphens'' (section 3), except that it may be empty when a run of spaces or tabs
  precedes the separator.
\<close>

definition whitespace :: "char \<Rightarrow> bool" where
  "whitespace c = (c \<in> set [CHR '' '', CHR 0x09, CHR 0x0A, CHR 0x0B, CHR 0x0C, CHR 0x0D])"

definition alphanumeric :: "char \<Rightarrow> bool" where
  "alphanumeric c =
     (c \<in> set ''0123456789ABCDEFGHIJKLMNOPQRSTUVWXYZabcdefghijklmnopqrstuvwxyz'')"

definition key_char :: "char \<Rightarrow> bool" where
  "key_char c = (alphanumeric c \<or> c = CHR ''-'')"

definition space_or_tab :: "char \<Rightarrow> bool" where
  "space_or_tab c = (c = CHR '' '' \<or> c = CHR 0x09)"

text \<open>
  The content of a line is what precedes its line break. A line is blank when its content is
  white space only, and a comment line when it begins with the comment marker.
\<close>

definition line_content :: "string \<Rightarrow> string" where
  "line_content line = takeWhile (\<lambda>c. c \<noteq> CHR 0x0A) line"

definition begins_with :: "string \<Rightarrow> string \<Rightarrow> bool" where
  "begins_with p line = (take (length p) line = p)"

definition begins_with_whitespace :: "string \<Rightarrow> bool" where
  "begins_with_whitespace line = (case line of [] \<Rightarrow> False | c # cs \<Rightarrow> whitespace c)"

definition is_comment_line :: "string \<Rightarrow> bool" where
  "is_comment_line line = (case line of [] \<Rightarrow> False | c # cs \<Rightarrow> c = COMMENT_LINE_CHAR)"

definition is_blank :: "string \<Rightarrow> bool" where
  "is_blank line = list_all whitespace (line_content line)"

text \<open>
  A recognized generated-prefix line ``matches one of a small ordered set of fixed prefixes'':
  it begins with one of them.
\<close>

definition has_recognized_prefix :: "string \<Rightarrow> bool" where
  "has_recognized_prefix line = list_ex (\<lambda>p. begins_with p line) git_generated_prefixes"

text \<open>
  A well-formed trailer line ``has the shape \<^verbatim>\<open><token><optional run of spaces/tabs><separator>\<close>
  where the separator appears at an index \<open>\<ge> 1\<close> and the line does not start with
  whitespace''. The index of the separator is the length of the token and of the run.
\<close>

definition is_well_formed_trailer :: "string \<Rightarrow> bool" where
  "is_well_formed_trailer line =
     (let token = takeWhile key_char line;
          after_token = dropWhile key_char line;
          spaces = takeWhile space_or_tab after_token;
          after_spaces = dropWhile space_or_tab after_token
      in (case after_spaces of [] \<Rightarrow> False | c # cs \<Rightarrow> c \<in> set TRAILER_SEPARATORS)
         \<and> 1 \<le> length token + length spaces
         \<and> \<not> begins_with_whitespace line)"

text \<open>
  The classes of Step 2, in the order in which the specification lists them; a line is of
  the first class that fits.
\<close>

datatype line_kind =
  Comment_line | Blank_line | Generated_prefix_line | Trailer_line
  | Continuation_candidate | Other_line

definition kind_of :: "string \<Rightarrow> line_kind" where
  "kind_of line =
     (if is_comment_line line then Comment_line
      else if is_blank line then Blank_line
      else if has_recognized_prefix line then Generated_prefix_line
      else if is_well_formed_trailer line then Trailer_line
      else if begins_with_whitespace line then Continuation_candidate
      else Other_line)"

text \<open>
  The decision: ``accept if EITHER (a) at least one recognized-prefix line was found and
  \<^verbatim>\<open>trailerLines * 3 >= nonTrailerLines\<close>, OR (b) at least one trailer line was found and
  \<^verbatim>\<open>nonTrailerLines == 0\<close>''.
\<close>

definition accept_rule :: "bool \<Rightarrow> nat \<Rightarrow> nat \<Rightarrow> bool" where
  "accept_rule recognized_prefix trailer_lines non_trailer_lines =
     ((recognized_prefix \<and> trailer_lines * 3 \<ge> non_trailer_lines)
      \<or> (1 \<le> trailer_lines \<and> non_trailer_lines = 0))"

text \<open>
  The lines of the region with the offset at which each starts.
\<close>

fun with_offsets :: "nat \<Rightarrow> string list \<Rightarrow> (nat \<times> string) list" where
  "with_offsets off [] = []"
| "with_offsets off (line # ls) = (off, line) # with_offsets (off + length line) ls"

text \<open>
  Step 1: \<^verbatim>\<open>titleEnd\<close> is the offset of the first blank line, comment lines skipped (a
  comment line is of the comment class, whatever follows its marker); it is the end of the
  lines when none is blank.
\<close>

fun spec_title_end :: "nat \<Rightarrow> string list \<Rightarrow> nat" where
  "spec_title_end off [] = off"
| "spec_title_end off (line # ls) =
     (if kind_of line = Blank_line then off else spec_title_end (off + length line) ls)"

text \<open>
  Step 2: the lines from \<^verbatim>\<open>titleEnd\<close> on, scanned from the last one backward, with the
  three counters and the flag of the specification. \<open>all_blank\<close> is ``every line seen so
  far in this backward scan was also blank''. A blank line met while it holds is absorbed;
  any other blank line is the qualifying one: the pending continuation lines are folded into
  the non-trailer lines, the decision is made, and the accepted text starts after that
  blank line. When the scan ends without a qualifying blank line (``or at reaching
  \<^verbatim>\<open>titleEnd\<close>''), the same decision is made, and the accepted text starts at
  \<^verbatim>\<open>titleEnd\<close>. When the decision rejects, no trailer block exists: the result is the
  length of the region.

  The first argument selects what a comment line does to \<open>all_blank\<close>. With \<open>True\<close>, a
  comment line is a line seen that was not blank, as the words of Step 2 stand. With
  \<open>False\<close>, a comment line is passed over: \<open>all_blank\<close> keeps its value, and only a line
  that is neither blank nor a comment ends the run of trailing blank lines.
\<close>

fun spec_scan ::
  "bool \<Rightarrow> nat \<Rightarrow> nat \<Rightarrow> (nat \<times> string) list \<Rightarrow> bool \<Rightarrow> bool \<Rightarrow> nat \<Rightarrow> nat \<Rightarrow> nat \<Rightarrow> nat" where
  "spec_scan comment_seen_as_line len title_end [] all_blank recognized_prefix
       trailer_lines non_trailer_lines continuation_lines =
     (if accept_rule recognized_prefix trailer_lines (non_trailer_lines + continuation_lines)
      then title_end else len)"
| "spec_scan comment_seen_as_line len title_end ((off, line) # earlier) all_blank
       recognized_prefix trailer_lines non_trailer_lines continuation_lines =
     (case kind_of line of
        Comment_line \<Rightarrow>
          spec_scan comment_seen_as_line len title_end earlier
            (all_blank \<and> \<not> comment_seen_as_line) recognized_prefix trailer_lines
            (non_trailer_lines + continuation_lines) 0
      | Blank_line \<Rightarrow>
          if all_blank then
            spec_scan comment_seen_as_line len title_end earlier all_blank recognized_prefix
              trailer_lines non_trailer_lines continuation_lines
          else if accept_rule recognized_prefix trailer_lines
                    (non_trailer_lines + continuation_lines)
            then off + length line
          else len
      | Generated_prefix_line \<Rightarrow>
          spec_scan comment_seen_as_line len title_end earlier False True
            (trailer_lines + 1) non_trailer_lines 0
      | Trailer_line \<Rightarrow>
          spec_scan comment_seen_as_line len title_end earlier False recognized_prefix
            (trailer_lines + 1) non_trailer_lines 0
      | Continuation_candidate \<Rightarrow>
          spec_scan comment_seen_as_line len title_end earlier False recognized_prefix
            trailer_lines non_trailer_lines (continuation_lines + 1)
      | Other_line \<Rightarrow>
          spec_scan comment_seen_as_line len title_end earlier False recognized_prefix
            trailer_lines (non_trailer_lines + 1 + continuation_lines) 0)"

text \<open>
  The locator on the bytes of a trimmed region.
\<close>

definition spec_locate :: "bool \<Rightarrow> string \<Rightarrow> nat" where
  "spec_locate comment_seen_as_line region =
     (let ls = lines_of region;
          title_end = spec_title_end 0 ls;
          scanned = rev (filter (\<lambda>(off, line). title_end \<le> off) (with_offsets 0 ls))
      in spec_scan comment_seen_as_line (length region) title_end scanned True False 0 0 0)"

text \<open>
  The locator as section 4.3 words it, and the locator in which comment lines are passed
  over.
\<close>

definition spec_trailer_start_as_written :: "string \<Rightarrow> nat" where
  "spec_trailer_start_as_written region = spec_locate True region"

definition spec_trailer_start :: "string \<Rightarrow> nat" where
  "spec_trailer_start region = spec_locate False region"

subsection \<open>The classes of a line and the tests of the source\<close>

text \<open>
  Each test that \<^verbatim>\<open>find_trailer_start\<close> makes on the C string at the start of a line
  decides the class of the first line of that string.
\<close>

lemma isspace_whitespace: "isspace c = whitespace c"
  by (cases c) (simp add: isspace_def whitespace_def; blast)

lemma isalnum_alphanumeric: "isalnum c = alphanumeric c"
  by (cases c) (simp add: isalnum_def alphanumeric_def Let_def; blast)

lemma key_char_facts:
  "key_char c \<Longrightarrow> c \<noteq> NUL \<and> c \<noteq> nl \<and> c \<notin> set TRAILER_SEPARATORS
     \<and> \<not> whitespace c \<and> \<not> space_or_tab c"
  by (auto simp: key_char_def alphanumeric_def NUL_def nl_def TRAILER_SEPARATORS_def
      whitespace_def space_or_tab_def)

lemma space_or_tab_facts:
  "space_or_tab c \<Longrightarrow> c \<noteq> NUL \<and> c \<noteq> nl \<and> c \<notin> set TRAILER_SEPARATORS
     \<and> whitespace c \<and> \<not> key_char c"
  by (auto simp: key_char_def alphanumeric_def NUL_def nl_def TRAILER_SEPARATORS_def
      whitespace_def space_or_tab_def)

lemma space_or_tab_code: "(c = CHR '' '' \<or> c = tab) = space_or_tab c"
  by (simp add: space_or_tab_def tab_def)

lemma key_char_code: "(isalnum c \<or> c = CHR ''-'') = key_char c"
  by (simp add: key_char_def isalnum_alphanumeric)

lemma is_blank_line_first_line: "is_blank_line t = is_blank (take (next_line t) t)"
proof (induction t)
  case Nil
  then show ?case by (simp add: is_blank_def line_content_def)
next
  case (Cons c cs)
  show ?case
  proof (cases "c = NUL \<or> c = nl")
    case True
    then show ?thesis by (auto simp: is_blank_def line_content_def nl_def NUL_def)
  next
    case False
    with Cons.IH show ?thesis
      by (auto simp: is_blank_def line_content_def isspace_whitespace nl_def)
  qed
qed

lemma comment_first_line:
  "at t 0 \<noteq> NUL \<Longrightarrow> (at t 0 = COMMENT_LINE_CHAR) = is_comment_line (take (next_line t) t)"
  by (cases t) (auto simp: at_def is_comment_line_def)

lemma whitespace_first_line:
  "at t 0 \<noteq> NUL \<Longrightarrow> isspace (at t 0) = begins_with_whitespace (take (next_line t) t)"
  by (cases t) (auto simp: at_def begins_with_whitespace_def isspace_whitespace)

lemma prefix_within_line:
  "take (length p) t = p \<Longrightarrow> NUL \<notin> set p \<Longrightarrow> nl \<notin> set p \<Longrightarrow> length p \<le> next_line t"
proof (induction p arbitrary: t)
  case Nil
  then show ?case by simp
next
  case (Cons a p)
  then obtain cs where t: "t = a # cs" by (cases t) auto
  with Cons.prems have "take (length p) cs = p" by simp
  with Cons.IH [of cs] Cons.prems have "length p \<le> next_line cs" by simp
  with t Cons.prems show ?case by auto
qed

lemma begins_with_first_line:
  assumes "NUL \<notin> set p" "nl \<notin> set p"
  shows "begins_with p (take (next_line t) t) = begins_with p t"
proof
  assume "begins_with p t"
  then have eq: "take (length p) t = p" by (simp add: begins_with_def)
  from prefix_within_line [OF eq assms] eq show "begins_with p (take (next_line t) t)"
    by (simp add: begins_with_def min_def)
next
  assume a: "begins_with p (take (next_line t) t)"
  then have eq: "take (length p) (take (next_line t) t) = p" by (simp add: begins_with_def)
  then have "length (take (length p) (take (next_line t) t)) = length p" by simp
  then have "length p \<le> next_line t" by simp
  with eq show "begins_with p t" by (simp add: begins_with_def min_def)
qed

lemma prefixcmp_begins_with:
  "NUL \<notin> set p \<Longrightarrow> (git__prefixcmp t p = 0) = begins_with p t"
  by (simp add: prefixcmp_zero_iff begins_with_def)

lemma generated_prefix_first_line:
  "has_generated_prefix t = has_recognized_prefix (take (next_line t) t)"
proof -
  have "(git__prefixcmp t p = 0) = begins_with p (take (next_line t) t)"
    if "p \<in> set git_generated_prefixes" for p
  proof -
    from that have "NUL \<notin> set p" "nl \<notin> set p"
      by (auto simp: git_generated_prefixes_def NUL_def nl_def)
    then show ?thesis by (simp add: prefixcmp_begins_with begins_with_first_line)
  qed
  then show ?thesis
    by (simp add: has_generated_prefix_def has_recognized_prefix_def list_ex_iff)
qed

lemma find_separator_loop_first_line:
  "find_separator_loop (take (next_line t) t) TRAILER_SEPARATORS i w
     = find_separator_loop t TRAILER_SEPARATORS i w"
proof (induction t arbitrary: i w)
  case Nil
  then show ?case by simp
next
  case (Cons c cs)
  show ?case
  proof (cases "c = NUL \<or> c = nl")
    case True
    then show ?thesis
      by (auto simp: isalnum_def nl_def tab_def)
  next
    case False
    with Cons.IH show ?thesis by simp
  qed
qed

lemma find_separator_skip_spaces:
  "\<forall>c\<in>set spaces. space_or_tab c \<Longrightarrow> i \<noteq> 0 \<Longrightarrow>
   find_separator_loop (spaces @ rest) TRAILER_SEPARATORS i True
     = find_separator_loop rest TRAILER_SEPARATORS (i + length spaces) True"
proof (induction spaces arbitrary: i)
  case Nil
  then show ?case by simp
next
  case (Cons c cs)
  then have c: "space_or_tab c" by simp
  from Cons.IH [of "i + 1"] Cons.prems space_or_tab_facts [OF c] c show ?case
    by (simp add: space_or_tab_code)
qed

lemma find_separator_skip_token:
  "\<forall>c\<in>set token. key_char c \<Longrightarrow>
   find_separator_loop (token @ rest) TRAILER_SEPARATORS i False
     = find_separator_loop rest TRAILER_SEPARATORS (i + length token) False"
proof (induction token arbitrary: i)
  case Nil
  then show ?case by simp
next
  case (Cons c cs)
  then have c: "key_char c" by simp
  from Cons.IH [of "i + 1"] Cons.prems key_char_facts [OF c] c show ?case
    by (simp add: key_char_code)
qed

lemma find_separator_stop:
  "rest = [] \<or> (\<not> space_or_tab (hd rest) \<and> (w \<or> \<not> key_char (hd rest))) \<Longrightarrow>
   find_separator_loop rest TRAILER_SEPARATORS i w
     = (if rest \<noteq> [] \<and> hd rest \<in> set TRAILER_SEPARATORS then int i else - 1)"
  by (cases rest)
     (auto simp: key_char_code space_or_tab_code NUL_def TRAILER_SEPARATORS_def)

lemma find_separator_first_space:
  "space_or_tab c \<Longrightarrow>
   find_separator_loop (c # rest) TRAILER_SEPARATORS i False
     = (if i \<noteq> 0 then find_separator_loop rest TRAILER_SEPARATORS (i + 1) True else - 1)"
  using space_or_tab_facts [of c]
  by (simp add: key_char_code space_or_tab_code)

lemma key_char_head:
  "takeWhile key_char line \<noteq> [] \<Longrightarrow> \<not> begins_with_whitespace line"
  by (cases line) (auto simp: begins_with_whitespace_def dest: key_char_facts split: if_splits)

lemma space_head:
  "takeWhile key_char line = [] \<Longrightarrow> takeWhile space_or_tab (dropWhile key_char line) \<noteq> []
     \<Longrightarrow> begins_with_whitespace line"
  by (cases line)
     (auto simp: begins_with_whitespace_def dest: space_or_tab_facts split: if_splits)

lemma head_in_set:
  "(case xs of [] \<Rightarrow> False | c # cs \<Rightarrow> c \<in> S) = (xs \<noteq> [] \<and> hd xs \<in> S)"
  by (cases xs) auto

lemma well_formed_trailer_code:
  "(1 \<le> find_separator line TRAILER_SEPARATORS \<and> \<not> isspace (at line 0))
     = is_well_formed_trailer line"
proof -
  define tok where "tok = takeWhile key_char line"
  define r where "r = dropWhile key_char line"
  define ws where "ws = takeWhile space_or_tab r"
  define r2 where "r2 = dropWhile space_or_tab r"
  let ?sep = "r2 \<noteq> [] \<and> hd r2 \<in> set TRAILER_SEPARATORS"
  have bww: "isspace (at line 0) = begins_with_whitespace line"
    by (cases line) (auto simp: at_def begins_with_whitespace_def isspace_whitespace
        whitespace_def NUL_def)
  have spec: "is_well_formed_trailer line
      = (?sep \<and> 1 \<le> length tok + length ws \<and> \<not> begins_with_whitespace line)"
    unfolding is_well_formed_trailer_def Let_def head_in_set tok_def r_def ws_def r2_def ..
  have line: "line = tok @ r" by (simp add: tok_def r_def)
  have r: "r = ws @ r2" by (simp add: ws_def r2_def)
  have tok: "\<forall>c\<in>set tok. key_char c" by (auto simp: tok_def dest: set_takeWhileD)
  have ws: "\<forall>c\<in>set ws. space_or_tab c" by (auto simp: ws_def dest: set_takeWhileD)
  have r2: "r2 = [] \<or> \<not> space_or_tab (hd r2)"
    unfolding r2_def by (metis hd_dropWhile)
  have r_head: "r = [] \<or> \<not> key_char (hd r)"
    unfolding r_def by (metis hd_dropWhile)
  have tok_head: "\<not> begins_with_whitespace line" if "tok \<noteq> []"
    using that key_char_head [of line] by (simp add: tok_def)
  have ws_head: "begins_with_whitespace line" if "tok = []" "ws \<noteq> []"
    using that space_head [of line] by (simp add: tok_def ws_def r_def)
  have "find_separator line TRAILER_SEPARATORS
      = find_separator_loop (tok @ r) TRAILER_SEPARATORS 0 False"
    by (simp add: find_separator_def line [symmetric])
  also have "\<dots> = find_separator_loop r TRAILER_SEPARATORS (length tok) False"
    using find_separator_skip_token [OF tok, of r 0] by simp
  finally have code: "find_separator line TRAILER_SEPARATORS
      = find_separator_loop r TRAILER_SEPARATORS (length tok) False" .
  show ?thesis
  proof (cases ws)
    case Nil
    with r have eq: "r2 = r" by simp
    with r2 r_head
    have "r = [] \<or> (\<not> space_or_tab (hd r) \<and> (False \<or> \<not> key_char (hd r)))" by blast
    from find_separator_stop [OF this, of "length tok"] code
    have val: "find_separator line TRAILER_SEPARATORS
        = (if r \<noteq> [] \<and> hd r \<in> set TRAILER_SEPARATORS then int (length tok) else - 1)"
      by simp
    show ?thesis
    proof (cases "tok = []")
      case True
      with val Nil show ?thesis by (simp add: spec bww)
    next
      case False
      with tok_head [OF False] val Nil eq show ?thesis
        by (simp add: spec bww Suc_le_eq)
    qed
  next
    case (Cons b ws')
    with ws have sb: "space_or_tab b" and ws': "\<forall>c\<in>set ws'. space_or_tab c" by simp_all
    have r': "r = b # (ws' @ r2)" using r Cons by simp
    show ?thesis
    proof (cases "tok = []")
      case True
      have "find_separator line TRAILER_SEPARATORS = - 1"
        unfolding code r' find_separator_first_space [OF sb] using True by simp
      with ws_head [OF True] Cons show ?thesis by (simp add: spec bww)
    next
      case nt: False
      then have pos: "length tok + 1 \<noteq> 0" by simp
      have "find_separator line TRAILER_SEPARATORS
          = find_separator_loop (ws' @ r2) TRAILER_SEPARATORS (length tok + 1) True"
        unfolding code r' find_separator_first_space [OF sb] using nt by simp
      also have "\<dots> = find_separator_loop r2 TRAILER_SEPARATORS
          (length tok + 1 + length ws') True"
        by (rule find_separator_skip_spaces [OF ws' pos])
      also have "\<dots> = (if ?sep then int (length tok + 1 + length ws') else - 1)"
        using r2 by (intro find_separator_stop) blast
      finally have val: "find_separator line TRAILER_SEPARATORS
          = (if ?sep then int (length tok + 1 + length ws') else - 1)" .
      from tok_head [OF nt] val Cons show ?thesis
        by (simp add: spec bww)
    qed
  qed
qed

lemma well_formed_first_line:
  "at t 0 \<noteq> NUL \<Longrightarrow>
   (1 \<le> find_separator t TRAILER_SEPARATORS \<and> \<not> isspace (at t 0))
     = is_well_formed_trailer (take (next_line t) t)"
proof -
  assume nz: "at t 0 \<noteq> NUL"
  let ?L = "take (next_line t) t"
  from nz have "at ?L 0 = at t 0" by (cases t) (auto simp: at_def)
  moreover have "find_separator ?L TRAILER_SEPARATORS = find_separator t TRAILER_SEPARATORS"
    by (simp add: find_separator_def find_separator_loop_first_line)
  ultimately show ?thesis using well_formed_trailer_code [of ?L] by simp
qed

subsection \<open>The lines of a buffer\<close>

text \<open>
  \<open>leading_lines t ls\<close>: the C string \<open>t\<close> begins with the lines \<open>ls\<close>, each cut where
  \<^verbatim>\<open>next_line\<close> of the source cuts it.
\<close>

fun leading_lines :: "string \<Rightarrow> string list \<Rightarrow> bool" where
  "leading_lines t [] = True"
| "leading_lines t (L # ls) =
     (at t 0 \<noteq> NUL \<and> L = take (next_line t) t \<and> leading_lines (drop (next_line t) t) ls)"

lemma with_offsets_append:
  "with_offsets off (xs @ ys) = with_offsets off xs @ with_offsets (off + length (concat xs)) ys"
  by (induction xs arbitrary: off) (simp_all add: add.assoc)

lemma with_offsets_bound:
  "(q, L) \<in> set (with_offsets off xs) \<Longrightarrow> q \<le> off + length (concat xs)"
  by (induction xs arbitrary: off) fastforce+

lemma scanned_snoc:
  "filter (\<lambda>(off, line). e \<le> off) (with_offsets 0 (pre @ [L]))
     = (if e \<le> length (concat pre)
        then filter (\<lambda>(off, line). e \<le> off) (with_offsets 0 pre) @ [(length (concat pre), L)]
        else [])"
proof (cases "e \<le> length (concat pre)")
  case True
  then show ?thesis by (simp add: with_offsets_append)
next
  case False
  then have "\<forall>x\<in>set (with_offsets 0 pre). \<not> (case x of (off, line) \<Rightarrow> e \<le> off)"
    using with_offsets_bound [of _ _ 0 pre] by fastforce
  then have "filter (\<lambda>(off, line). e \<le> off) (with_offsets 0 pre) = []"
    by (simp add: filter_empty_conv)
  with False show ?thesis by (simp add: with_offsets_append)
qed

lemma spec_title_end_ge: "off \<le> spec_title_end off xs"
proof (induction xs arbitrary: off)
  case Nil
  then show ?case by simp
next
  case (Cons L xs)
  from Cons [of "off + length L"] show ?case by simp
qed

lemma spec_title_end_append:
  "spec_title_end off (xs @ ys)
     = (if \<exists>L\<in>set xs. kind_of L = Blank_line then spec_title_end off xs
        else spec_title_end (off + length (concat xs)) ys)"
  by (induction xs arbitrary: off) (simp_all add: add.assoc)

lemma spec_title_end_before_last:
  "\<exists>L\<in>set (pre @ [K]). kind_of L = Blank_line \<Longrightarrow>
   spec_title_end off (pre @ [K]) \<le> off + length (concat pre)"
proof (induction pre arbitrary: off)
  case Nil
  then show ?case by simp
next
  case (Cons L pre)
  show ?case
  proof (cases "kind_of L = Blank_line")
    case True
    then show ?thesis by simp
  next
    case False
    with Cons.prems have "\<exists>L\<in>set (pre @ [K]). kind_of L = Blank_line" by simp
    from Cons.IH [OF this, of "off + length L"] False show ?thesis by simp
  qed
qed

lemma lines_of_nonempty: "s \<noteq> [] \<Longrightarrow> lines_of s \<noteq> []"
  by (cases s) (simp_all split: list.splits)

lemma lines_of_append:
  "xs = [] \<or> last xs = nl \<Longrightarrow> lines_of (xs @ ys) = lines_of xs @ lines_of ys"
proof (induction xs)
  case Nil
  then show ?case by simp
next
  case (Cons c cs)
  show ?case
  proof (cases "c = nl")
    case True
    with Cons show ?thesis by (cases "cs = []") simp_all
  next
    case False
    with Cons.prems have ne: "cs \<noteq> []" and "last cs = nl" by (auto split: if_splits)
    with Cons.IH have eq: "lines_of (cs @ ys) = lines_of cs @ lines_of ys" by simp
    from lines_of_nonempty [OF ne] obtain l ls where "lines_of cs = l # ls"
      by (cases "lines_of cs") auto
    with eq False show ?thesis by simp
  qed
qed

lemma leading_lines_append:
  "leading_lines t (xs @ ys)
     = (leading_lines t xs \<and> leading_lines (drop (length (concat xs)) t) ys)"
proof (induction xs arbitrary: t)
  case Nil
  then show ?case by simp
next
  case (Cons L xs)
  have len: "length (take (next_line t) t) = next_line t"
    using next_line_le [of t] by simp
  have "drop (length (concat xs)) (drop (next_line t) t)
      = drop (next_line t + length (concat xs)) t"
    by (simp add: add.commute)
  with Cons [of "drop (next_line t) t"] len show ?case by auto
qed

lemma leading_lines_all: "leading_lines t (lines_of (c_string t 0))"
proof (induction "length t" arbitrary: t rule: less_induct)
  case less
  show ?case
  proof (cases "at t 0 = NUL")
    case True
    then show ?thesis by (simp add: c_string_stop)
  next
    case False
    then have "t \<noteq> []" by (auto simp: at_def)
    moreover from False have "0 < next_line t" by (rule next_line_pos)
    ultimately have "length (drop (next_line t) t) < length t" by simp
    from less [OF this] False show ?thesis by (simp add: lines_of_first)
  qed
qed

lemma leading_lines_concat:
  "leading_lines t xs \<Longrightarrow> concat xs = take (length (concat xs)) t"
proof (induction xs arbitrary: t)
  case Nil
  then show ?case by simp
next
  case (Cons L xs)
  then have L: "L = take (next_line t) t"
    and rest: "leading_lines (drop (next_line t) t) xs" by simp_all
  have len: "length L = next_line t" using next_line_le [of t] L by simp
  from Cons.IH [OF rest]
  have "concat xs = take (length (concat xs)) (drop (next_line t) t)" .
  then have "L @ concat xs
      = take (next_line t) t @ take (length (concat xs)) (drop (next_line t) t)"
    using L by simp
  also have "\<dots> = take (next_line t + length (concat xs)) t"
    by (simp add: take_add)
  finally have e: "L @ concat xs = take (next_line t + length (concat xs)) t" .
  have n: "length (concat (L # xs)) = next_line t + length (concat xs)" using len by simp
  show ?case unfolding n using e by (simp only: concat.simps)
qed

lemma leading_lines_nonempty: "leading_lines t xs \<Longrightarrow> L \<in> set xs \<Longrightarrow> L \<noteq> []"
proof (induction xs arbitrary: t)
  case Nil
  then show ?case by simp
next
  case (Cons K xs)
  from Cons.prems have "at t 0 \<noteq> NUL" by simp
  then have "0 < next_line t" "t \<noteq> []" by (auto intro: next_line_pos simp: at_def)
  then have "take (next_line t) t \<noteq> []" by simp
  with Cons show ?case by auto
qed

lemma no_break_inside_line: "i + 1 < next_line t \<Longrightarrow> at t i \<noteq> nl"
proof (induction t arbitrary: i)
  case Nil
  then show ?case by simp
next
  case (Cons c cs)
  then have c: "c \<noteq> NUL" "c \<noteq> nl" and n: "i < next_line cs" by (auto split: if_splits)
  show ?case
  proof (cases i)
    case 0
    with c show ?thesis by (simp add: at_def)
  next
    case (Suc j)
    with n Cons.IH [of j] show ?thesis by (simp add: at_Cons_Suc)
  qed
qed

lemma leading_lines_end_line_start:
  assumes "leading_lines buf xs" "at buf (length (concat xs)) \<noteq> NUL"
  shows "is_line_start buf (length (concat xs))"
proof (cases xs rule: rev_cases)
  case Nil
  then show ?thesis by (simp add: is_line_start_def)
next
  case (snoc pre K)
  let ?l = "length (concat pre)"
  let ?t = "drop ?l buf"
  from assms(1) snoc have K: "at ?t 0 \<noteq> NUL" "K = take (next_line ?t) ?t"
    by (simp_all add: leading_lines_append)
  have len: "length K = next_line ?t" using next_line_le [of ?t] K(2) by simp
  with snoc have n: "length (concat xs) = ?l + next_line ?t" by simp
  from assms(2) have "at ?t (next_line ?t) \<noteq> NUL" by (simp add: at_drop_add n)
  with next_line_end [of ?t] have "0 < next_line ?t" "at ?t (next_line ?t - 1) = nl"
    by auto
  then have "at buf (?l + next_line ?t - 1) = nl" by (simp add: at_drop_add)
  with \<open>0 < next_line ?t\<close> show ?thesis by (simp add: is_line_start_def n)
qed

lemma last_line_of_lines:
  assumes "leading_lines buf (pre @ [L])"
  shows "last_line buf (length (concat (pre @ [L]))) = int (length (concat pre))"
proof -
  let ?l = "length (concat pre)"
  let ?t = "drop ?l buf"
  from assms have pre: "leading_lines buf pre"
    and L: "at ?t 0 \<noteq> NUL" "L = take (next_line ?t) ?t"
    by (simp_all add: leading_lines_append)
  have len: "length L = next_line ?t" using next_line_le [of ?t] L(2) by simp
  have pos: "0 < next_line ?t" using L(1) by (rule next_line_pos)
  let ?n = "?l + next_line ?t"
  have n: "length (concat (pre @ [L])) = ?n" using len by simp
  from L(1) have "at buf ?l \<noteq> NUL" by (simp add: at_drop)
  from leading_lines_end_line_start [OF pre this] have ls: "is_line_start buf ?l" .
  from last_line_ge [OF ls, of ?n] pos have ge: "int ?l \<le> last_line buf ?n" by simp
  then have nonneg: "0 \<le> last_line buf ?n" by linarith
  let ?q = "nat (last_line buf ?n)"
  from last_line_line_start [OF nonneg] have qs: "is_line_start buf ?q" .
  from last_line_less [of buf ?n] nonneg have qn: "?q < ?n" by linarith
  have "?q = ?l"
  proof (rule ccontr)
    assume "?q \<noteq> ?l"
    with ge have gt: "?l < ?q" by linarith
    with qs have "at buf (?q - 1) = nl" by (auto simp: is_line_start_def)
    moreover from gt obtain i where i: "?q - 1 = ?l + i" "i + 1 < next_line ?t"
      using qn by (intro that [of "?q - 1 - ?l"]) linarith+
    ultimately have "at ?t i = nl" by (simp add: at_drop_add)
    with no_break_inside_line [OF i(2)] show False by simp
  qed
  with nonneg show ?thesis unfolding n by linarith
qed

lemma first_line_kind:
  assumes "at t 0 \<noteq> NUL"
  shows "kind_of (take (next_line t) t)
       = (if at t 0 = COMMENT_LINE_CHAR then Comment_line
          else if is_blank_line t then Blank_line
          else if has_generated_prefix t then Generated_prefix_line
          else if 1 \<le> find_separator t TRAILER_SEPARATORS \<and> \<not> isspace (at t 0)
            then Trailer_line
          else if isspace (at t 0) then Continuation_candidate
          else Other_line)"
  by (simp only: kind_of_def comment_first_line [OF assms, symmetric]
      is_blank_line_first_line [symmetric] generated_prefix_first_line [symmetric]
      well_formed_first_line [OF assms, symmetric] whitespace_first_line [OF assms, symmetric])

lemma find_title_end_lines:
  "leading_lines (drop s buf) ys \<Longrightarrow> len = s + length (concat ys) \<Longrightarrow>
   find_title_end buf len s = spec_title_end s ys"
proof (induction ys arbitrary: s)
  case Nil
  then have "len = s" by simp
  then show ?case by (simp add: find_title_end.simps [of buf s s])
next
  case (Cons L ys)
  let ?t = "drop s buf"
  from Cons.prems have L: "at ?t 0 \<noteq> NUL" "L = take (next_line ?t) ?t"
    and rest: "leading_lines (drop (next_line ?t) ?t) ys" by simp_all
  have len: "length L = next_line ?t" using next_line_le [of ?t] L(2) by simp
  have pos: "0 < next_line ?t" using L(1) by (rule next_line_pos)
  with Cons.prems(2) len have lt: "s < len" by simp
  from rest have rest': "leading_lines (drop (s + next_line ?t) buf) ys"
    by (simp add: add.commute)
  from Cons.prems(2) len have "len = s + next_line ?t + length (concat ys)" by simp
  from Cons.IH [OF rest' this]
  have IH: "find_title_end buf len (s + next_line ?t) = spec_title_end (s + next_line ?t) ys" .
  have kind: "(kind_of L = Blank_line)
      = (at buf s \<noteq> COMMENT_LINE_CHAR \<and> is_blank_line ?t)"
    unfolding L(2) first_line_kind [OF L(1)] by (simp add: at_drop)
  show ?case
    using lt IH kind len by (simp add: find_title_end.simps [of buf len s])
qed

lemma scan_refines:
  assumes "leading_lines buf xs"
    and "e = spec_title_end 0 (xs @ ys)"
    and "os \<longrightarrow> tr = 0 \<and> \<not> rp"
    and "\<not> os \<longrightarrow> (\<exists>L\<in>set xs. kind_of L = Blank_line)"
  shows "find_trailer_start_loop buf len e (last_line buf (length (concat xs))) os rp tr ntl pcl
       = spec_scan False len e
           (rev (filter (\<lambda>(off, line). e \<le> off) (with_offsets 0 xs))) os rp tr ntl pcl"
  using assms
proof (induction xs arbitrary: ys os rp tr ntl pcl rule: rev_induct)
  case Nil
  then have "\<not> accept_rule rp tr (ntl + pcl)" by (simp add: accept_rule_def)
  then show ?case
    by (simp add: last_line_def find_trailer_start_loop.simps [of buf len e "- 1"])
next
  case (snoc L pre)
  let ?l = "length (concat pre)"
  let ?t = "drop ?l buf"
  let ?scanned = "rev (filter (\<lambda>(off, line). e \<le> off) (with_offsets 0 pre))"
  note ll = last_line_of_lines [OF snoc.prems(1)]
  from snoc.prems(1) have pre: "leading_lines buf pre"
    and L: "at ?t 0 \<noteq> NUL" "L = take (next_line ?t) ?t"
    by (simp_all add: leading_lines_append)
  have len: "length L = next_line ?t" using next_line_le [of ?t] L(2) by simp
  have pos: "0 < next_line ?t" using L(1) by (rule next_line_pos)
  have e: "e = spec_title_end 0 (pre @ (L # ys))" using snoc.prems(2) by simp
  show ?case
  proof (cases "e \<le> ?l")
    case False
    have os: os
    proof (rule ccontr)
      assume "\<not> os"
      with snoc.prems(4) have b: "\<exists>K\<in>set (pre @ [L]). kind_of K = Blank_line" by simp
      then have "e = spec_title_end 0 (pre @ [L])"
        using snoc.prems(2) spec_title_end_append [of 0 "pre @ [L]" ys] by simp
      with spec_title_end_before_last [OF b, of 0] False show False by simp
    qed
    with snoc.prems(3) have "\<not> accept_rule rp tr (ntl + pcl)" by (simp add: accept_rule_def)
    with False show ?thesis
      unfolding ll scanned_snoc
      by (simp add: find_trailer_start_loop.simps [of buf len e "int ?l"])
  next
    case True
    then have le: "int e \<le> int ?l" by simp
    have sc: "rev (filter (\<lambda>(off, line). e \<le> off) (with_offsets 0 (pre @ [L])))
        = (?l, L) # ?scanned"
      unfolding scanned_snoc using True by simp
    have blank_before: "\<exists>K\<in>set pre. kind_of K = Blank_line" if "kind_of L \<noteq> Blank_line"
    proof (rule ccontr)
      assume "\<not> ?thesis"
      with e that have "e = spec_title_end (?l + length L) ys"
        using spec_title_end_append [of 0 pre "L # ys"] by simp
      with spec_title_end_ge [of "?l + length L" ys] len pos True show False by simp
    qed
    note kind = first_line_kind [OF L(1), folded L(2)]
    note unfold = find_trailer_start_loop.simps [of buf len e "int ?l"]
    show ?thesis
    proof (cases "kind_of L")
      case Comment_line
      with kind have c: "at ?t 0 = COMMENT_LINE_CHAR" by (simp split: if_splits)
      have b: "\<not> os \<longrightarrow> (\<exists>K\<in>set pre. kind_of K = Blank_line)"
        using snoc.prems(4) Comment_line by auto
      from snoc.IH [OF pre e snoc.prems(3) b, of "ntl + pcl" 0] Comment_line c le
      show ?thesis unfolding ll sc by (simp add: unfold)
    next
      case Blank_line
      with kind have c: "at ?t 0 \<noteq> COMMENT_LINE_CHAR" "is_blank_line ?t"
        by (simp_all split: if_splits)
      show ?thesis
      proof (cases os)
        case True
        with snoc.IH [OF pre e snoc.prems(3), of ntl pcl] Blank_line c le
        show ?thesis unfolding ll sc by (simp add: unfold)
      next
        case False
        with Blank_line c le len show ?thesis
          unfolding ll sc by (auto simp add: unfold accept_rule_def Suc_le_eq Let_def)
      qed
    next
      case Generated_prefix_line
      with kind have c: "at ?t 0 \<noteq> COMMENT_LINE_CHAR" "\<not> is_blank_line ?t"
        "has_generated_prefix ?t"
        by (simp_all split: if_splits)
      from blank_before Generated_prefix_line
      have b: "\<not> False \<longrightarrow> (\<exists>K\<in>set pre. kind_of K = Blank_line)" by simp
      from snoc.IH [OF pre e _ b, of "tr + 1" True ntl 0] Generated_prefix_line c le
      show ?thesis unfolding ll sc by (simp add: unfold)
    next
      case Trailer_line
      with kind have c: "at ?t 0 \<noteq> COMMENT_LINE_CHAR" "\<not> is_blank_line ?t"
        "\<not> has_generated_prefix ?t"
        "1 \<le> find_separator ?t TRAILER_SEPARATORS \<and> \<not> isspace (at ?t 0)"
        by (simp_all split: if_splits)
      from blank_before Trailer_line
      have b: "\<not> False \<longrightarrow> (\<exists>K\<in>set pre. kind_of K = Blank_line)" by simp
      from snoc.IH [OF pre e _ b, of "tr + 1" rp ntl 0] Trailer_line c le
      show ?thesis unfolding ll sc by (simp add: unfold)
    next
      case Continuation_candidate
      with kind have c: "at ?t 0 \<noteq> COMMENT_LINE_CHAR" "\<not> is_blank_line ?t"
        "\<not> has_generated_prefix ?t"
        "\<not> (1 \<le> find_separator ?t TRAILER_SEPARATORS \<and> \<not> isspace (at ?t 0))"
        "isspace (at ?t 0)"
        by (simp_all split: if_splits)
      from blank_before Continuation_candidate
      have b: "\<not> False \<longrightarrow> (\<exists>K\<in>set pre. kind_of K = Blank_line)" by simp
      from snoc.IH [OF pre e _ b, of tr rp ntl "pcl + 1"] Continuation_candidate c le
      show ?thesis unfolding ll sc by (simp add: unfold)
    next
      case Other_line
      with kind have c: "at ?t 0 \<noteq> COMMENT_LINE_CHAR" "\<not> is_blank_line ?t"
        "\<not> has_generated_prefix ?t"
        "\<not> (1 \<le> find_separator ?t TRAILER_SEPARATORS \<and> \<not> isspace (at ?t 0))"
        "\<not> isspace (at ?t 0)"
        by (simp_all split: if_splits)
      from blank_before Other_line
      have b: "\<not> False \<longrightarrow> (\<exists>K\<in>set pre. kind_of K = Blank_line)" by simp
      from snoc.IH [OF pre e _ b, of tr rp "ntl + 1 + pcl" 0] Other_line c le
      show ?thesis unfolding ll sc by (simp add: unfold)
    qed
  qed
qed

lemma with_offsets_end:
  "(q, L) \<in> set (with_offsets off xs) \<Longrightarrow> q + length L \<le> off + length (concat xs)"
  by (induction xs arbitrary: off) fastforce+

lemma spec_title_end_le: "spec_title_end off xs \<le> off + length (concat xs)"
proof (induction xs arbitrary: off)
  case Nil
  then show ?case by simp
next
  case (Cons L xs)
  from Cons [of "off + length L"] show ?case by simp
qed

lemma spec_scan_le:
  assumes "\<forall>x\<in>set tbl. fst x + length (snd x) \<le> n" "e \<le> n" "len \<le> n"
  shows "spec_scan c len e tbl ab rp tr ntl pcl \<le> n"
  using assms(1)
proof (induction tbl arbitrary: ab rp tr ntl pcl)
  case Nil
  from assms(2,3) show ?case by simp
next
  case (Cons x tbl)
  obtain off line where x: "x = (off, line)" by (cases x)
  with Cons.prems have 1: "off + length line \<le> n"
    and 2: "\<forall>x\<in>set tbl. fst x + length (snd x) \<le> n" by simp_all
  note IH = Cons.IH [OF 2]
  show ?case unfolding x by (cases "kind_of line") (simp_all add: IH 1 assms(3))
qed

lemma spec_locate_le: "spec_locate c region \<le> length region"
proof -
  let ?ls = "lines_of region"
  have len: "length (concat ?ls) = length region" by (simp add: concat_lines_of)
  have "\<forall>x\<in>set (rev (filter (\<lambda>(off, line). spec_title_end 0 ?ls \<le> off) (with_offsets 0 ?ls))).
      fst x + length (snd x) \<le> length region"
    using with_offsets_end [of _ _ 0 ?ls] len by auto
  moreover have "spec_title_end 0 ?ls \<le> length region"
    using spec_title_end_le [of 0 ?ls] len by simp
  ultimately show ?thesis
    unfolding spec_locate_def Let_def by (intro spec_scan_le) simp_all
qed

lemma find_trailer_start_lines:
  assumes "leading_lines buf xs"
  shows "find_trailer_start buf (length (concat xs))
       = spec_scan False (length (concat xs)) (spec_title_end 0 xs)
           (rev (filter (\<lambda>(off, line). spec_title_end 0 xs \<le> off) (with_offsets 0 xs)))
           True False 0 0 0"
proof -
  from assms have "leading_lines (drop 0 buf) xs" by simp
  from find_title_end_lines [OF this, of "length (concat xs)"]
  have e: "find_title_end buf (length (concat xs)) 0 = spec_title_end 0 xs" by simp
  from scan_refines [OF assms, of "spec_title_end 0 xs" "[]" True 0 False]
  show ?thesis unfolding find_trailer_start_def e by simp
qed

lemma c_string_take: "n \<le> length (c_string m 0) \<Longrightarrow> take n (c_string m 0) = take n m"
proof -
  assume n: "n \<le> length (c_string m 0)"
  have "c_string m 0 = take (length (c_string m 0)) m"
    unfolding c_string_def drop_0 by (rule takeWhile_eq_take)
  then have "take n (c_string m 0) = take n (take (length (c_string m 0)) m)" by simp
  also have "\<dots> = take n m" using n by (simp add: min_def)
  finally show ?thesis .
qed

lemma region_lines:
  assumes n: "n \<le> length (c_string m 0)" and b: "is_line_start m n \<or> at m n = NUL"
  shows "leading_lines m (lines_of (take n m))"
proof (cases "n = length (c_string m 0)")
  case True
  with c_string_take [OF n] have "take n m = c_string m 0" by simp
  then show ?thesis by (simp add: leading_lines_all)
next
  case False
  with n have lt: "n < length (c_string m 0)" by simp
  from c_string_no_NUL [OF this] b have ls: "is_line_start m n" by simp
  have "length (c_string m 0) \<le> length m" by (simp add: c_string_def length_takeWhile_le)
  with lt have nm: "n < length m" by simp
  have "take n m = [] \<or> last (take n m) = nl"
  proof (cases n)
    case 0
    then show ?thesis by simp
  next
    case (Suc k)
    with ls have "at m k = nl" by (simp add: is_line_start_def)
    moreover from Suc nm have "last (take n m) = m ! k"
      by (simp add: take_Suc_conv_app_nth)
    ultimately show ?thesis using Suc nm by (simp add: at_def)
  qed
  from lines_of_append [OF this, of "drop n (c_string m 0)"]
  have "lines_of (c_string m 0)
      = lines_of (take n m) @ lines_of (drop n (c_string m 0))"
    using c_string_take [OF n] append_take_drop_id [of n "c_string m 0"] by simp
  with leading_lines_all [of m] show ?thesis by (simp add: leading_lines_append)
qed

lemma find_trailer_start_region:
  assumes n: "n \<le> length (c_string m 0)" and b: "is_line_start m n \<or> at m n = NUL"
  shows "find_trailer_start m n = spec_trailer_start (take n m)"
proof -
  have "length (c_string m 0) \<le> length m" by (simp add: c_string_def length_takeWhile_le)
  with n have nm: "n \<le> length m" by simp
  then have "length (concat (lines_of (take n m))) = n" by (simp add: concat_lines_of)
  with find_trailer_start_lines [OF region_lines [OF n b]] nm show ?thesis
    by (simp add: spec_trailer_start_def spec_locate_def Let_def min_def)
qed

lemma find_patch_start_loop_boundary:
  "is_line_start str s \<or> at str s = NUL \<Longrightarrow>
   is_line_start str (find_patch_start_loop str s) \<or> at str (find_patch_start_loop str s) = NUL"
proof (induction str s rule: find_patch_start_loop.induct)
  case (1 str s)
  let ?t = "drop s str"
  show ?case
  proof (cases "at str s = NUL \<or> git__prefixcmp ?t ''---'' = 0")
    case True
    with "1.prems" show ?thesis by (auto simp: find_patch_start_loop.simps [of str s])
  next
    case False
    have "is_line_start str (s + next_line ?t) \<or> at str (s + next_line ?t) = NUL"
      using next_line_end [of ?t] by (auto simp: at_drop_add is_line_start_def)
    from "1.IH" [OF _ _ this] False show ?thesis
      by (simp add: find_patch_start_loop.simps [of str s])
  qed
qed

lemma memchr_at: "memchr s c n = Some k \<Longrightarrow> at s k = c"
  by (induction s c n arbitrary: k rule: memchr.induct)
     (auto simp: at_def split: if_splits)

lemma ignore_non_trailer_loop_boundary:
  assumes "boc = 0 \<or> (is_line_start buf boc \<and> boc < len)" "is_line_start buf bol \<or> len \<le> bol"
  shows "ignore_non_trailer_loop buf len bol boc c = 0
       \<or> is_line_start buf (len - ignore_non_trailer_loop buf len bol boc c)"
  using assms
proof (induction "len - bol" arbitrary: bol boc c rule: less_induct)
  case less
  let ?P = "\<lambda>r. r = 0 \<or> is_line_start buf (len - r)"
  show ?case
  proof (cases "bol < len")
    case False
    with less.prems(1) show ?thesis
      by (auto simp: ignore_non_trailer_loop.simps [of buf len bol boc c])
  next
    case True
    define nx where "nx = (case memchr (drop bol buf) nl (len - bol) of
        None \<Rightarrow> len | Some k \<Rightarrow> bol + k + 1)"
    have nx: "is_line_start buf nx \<or> len \<le> nx"
    proof (cases "memchr (drop bol buf) nl (len - bol)")
      case None
      then show ?thesis by (simp add: nx_def)
    next
      case (Some k)
      from memchr_at [OF this] have "at buf (bol + k) = nl" by (simp add: at_drop_add)
      with Some show ?thesis by (simp add: nx_def is_line_start_def)
    qed
    have gt: "len - nx < len - bol"
      using True by (auto simp: nx_def split: option.splits dest: memchr_less)
    from True less.prems(2) have bol: "is_line_start buf bol" by simp
    have rec: "?P (ignore_non_trailer_loop buf len nx boc' c')"
      if "boc' = 0 \<or> (is_line_start buf boc' \<and> boc' < len)" for boc' c'
      using less.hyps [OF gt that nx] .
    have keep: "(if boc = 0 then bol else boc) = 0
        \<or> (is_line_start buf (if boc = 0 then bol else boc)
           \<and> (if boc = 0 then bol else boc) < len)"
      using less.prems(1) bol True by auto
    have unfold: "ignore_non_trailer_loop buf len bol boc c =
        (if at buf bol = COMMENT_LINE_CHAR \<or> at buf bol = nl then
           ignore_non_trailer_loop buf len nx (if boc = 0 then bol else boc) c
         else if git__prefixcmp (drop bol buf) (''Conflicts:'' @ [nl]) = 0 then
           ignore_non_trailer_loop buf len nx (if boc = 0 then bol else boc) True
         else if c \<and> at buf bol = tab then ignore_non_trailer_loop buf len nx boc c
         else if boc \<noteq> 0 then ignore_non_trailer_loop buf len nx 0 False
         else ignore_non_trailer_loop buf len nx boc c)"
      unfolding nx_def using True
      by (subst ignore_non_trailer_loop.simps) (simp add: Let_def)
    have zero: "(0 :: nat) = 0 \<or> (is_line_start buf 0 \<and> 0 < len)" by simp
    show ?thesis
      unfolding unfold
      using rec [OF keep] rec [OF less.prems(1)] rec [OF zero] by (simp split: if_splits)
  qed
qed

lemma trimmed_region_boundary:
  "is_line_start message (find_trailer_end message (find_patch_start message))
   \<or> at message (find_trailer_end message (find_patch_start message)) = NUL"
proof -
  let ?ps = "find_patch_start message"
  let ?r = "ignore_non_trailer message ?ps"
  have ps: "is_line_start message ?ps \<or> at message ?ps = NUL"
    unfolding find_patch_start_def
    by (rule find_patch_start_loop_boundary) (simp add: is_line_start_def)
  have "?r = 0 \<or> is_line_start message (?ps - ?r)"
    unfolding ignore_non_trailer_def
    by (rule ignore_non_trailer_loop_boundary) (simp_all add: is_line_start_def)
  with ps show ?thesis by (auto simp: find_trailer_end_def)
qed

lemma trimmed_region_in_string:
  "find_trailer_end message (find_patch_start message) \<le> length (c_string message 0)"
  using find_trailer_end_le [of message "find_patch_start message"]
    find_patch_start_le [of message]
  by linarith

section \<open>What the whole-sequence helper returns and frees\<close>

text \<open>
  When the iterator is allocated, \<^verbatim>\<open>git_message_trailers\<close> returns \<open>0\<close> whatever the
  callback returned, and frees the block and the iterator on every path through
  \<^verbatim>\<open>ret\<close>; when the allocation fails it returns \<open>-1\<close> and there is nothing to free.
\<close>

lemma git_message_trailers_returns_zero:
  "fst (git_message_trailers True message cb payload) = 0"
  by (simp add: git_message_trailers_def git_message_trailer_iterator_new_def
      split: prod.splits)

lemma git_message_trailers_frees:
  "\<exists>block. snd (snd (git_message_trailers True message cb payload))
     = [Block_buffer block, Iterator_struct]"
  by (simp add: git_message_trailers_def git_message_trailer_iterator_new_def
      git_message_trailer_iterator_free_def split: prod.splits)

lemma git_message_trailers_out_of_memory:
  "git_message_trailers False message cb payload = (- 1, payload, [])"
  by (simp add: git_message_trailers_def git_message_trailer_iterator_new_def)

section \<open>Claims\<close>

text \<open>
  Claim C1, as the code has it. For every message shorter than \<open>2^31\<close> bytes, the
  \<^verbatim>\<open>int\<close> that \<^verbatim>\<open>find_trailer_start\<close> returns for the trimmed region is the offset
  that the locator of section 4.3 gives on the bytes of the region, comment lines being
  passed over: a blank line qualifies as soon as a line that is neither blank nor a comment
  has been scanned. There, and at the end of the scan, the text that follows is accepted
  exactly when (a) a recognized-prefix line was found and three times the trailer lines
  are at least the non-trailer lines, or (b) a trailer line was found and there is no
  non-trailer line, the pending continuation lines counted as non-trailer lines; otherwise
  the result is the length of the region: no trailer block.
\<close>

theorem trailer_block_dual_rule:
  assumes "length (c_string message 0) < 2 ^ 31"
  shows "to_int32 (find_trailer_start message
                     (find_trailer_end message (find_patch_start message)))
       = int (spec_trailer_start
                (take (find_trailer_end message (find_patch_start message)) message))"
proof -
  let ?te = "find_trailer_end message (find_patch_start message)"
  have te: "?te \<le> length (c_string message 0)" by (rule trimmed_region_in_string)
  from find_trailer_start_region [OF te trimmed_region_boundary]
  have eq: "find_trailer_start message ?te = spec_trailer_start (take ?te message)" .
  have "spec_trailer_start (take ?te message) \<le> length (take ?te message)"
    unfolding spec_trailer_start_def by (rule spec_locate_le)
  also have "\<dots> \<le> ?te" by simp
  finally have "spec_trailer_start (take ?te message) < 2 ^ 31" using te assms by linarith
  then show ?thesis unfolding eq by (rule to_int32_small)
qed

text \<open>
  A message with a patch part, whose last paragraph holds a recognized-prefix line and three
  lines that are no trailers: the region has 38 bytes and the block starts at offset 15,
  by rule (a).
\<close>

theorem trailer_block_dual_rule_witness:
  "length (c_string ''Subject\<newline>\<newline>body\<newline>\<newline>Signed-off-by: A\<newline>x\<newline>y\<newline>z\<newline>---\<newline>d'' 0) < 2 ^ 31
   \<and> find_trailer_end ''Subject\<newline>\<newline>body\<newline>\<newline>Signed-off-by: A\<newline>x\<newline>y\<newline>z\<newline>---\<newline>d''
        (find_patch_start ''Subject\<newline>\<newline>body\<newline>\<newline>Signed-off-by: A\<newline>x\<newline>y\<newline>z\<newline>---\<newline>d'') = 38
   \<and> to_int32 (find_trailer_start
        ''Subject\<newline>\<newline>body\<newline>\<newline>Signed-off-by: A\<newline>x\<newline>y\<newline>z\<newline>---\<newline>d'' 38) = 15
   \<and> spec_trailer_start ''Subject\<newline>\<newline>body\<newline>\<newline>Signed-off-by: A\<newline>x\<newline>y\<newline>z\<newline>'' = 15"
proof -
  let ?m = "''Subject\<newline>\<newline>body\<newline>\<newline>Signed-off-by: A\<newline>x\<newline>y\<newline>z\<newline>---\<newline>d''"
  have h: "length (c_string ?m 0) < 2 ^ 31" by (simp add: c_string_def NUL_def)
  have te: "find_trailer_end ?m (find_patch_start ?m) = 38" by code_simp
  have region: "take 38 ?m = ''Subject\<newline>\<newline>body\<newline>\<newline>Signed-off-by: A\<newline>x\<newline>y\<newline>z\<newline>''"
    by simp
  have spec: "spec_trailer_start ''Subject\<newline>\<newline>body\<newline>\<newline>Signed-off-by: A\<newline>x\<newline>y\<newline>z\<newline>'' = 15"
    by code_simp
  from trailer_block_dual_rule [OF h] show ?thesis
    unfolding te region spec using h by simp
qed

text \<open>
  Claim C1 as the specification states it fails on a region whose trailing blank lines
  enclose a comment line. By the words of Step 2 the blank line at offset 16 qualifies,
  since the comment line that the backward scan has seen by then was not blank; no trailer
  line has been found yet, and there is no trailer block. The source passes over the
  comment line, absorbs the blank line, and accepts the line \<^verbatim>\<open>Key: v\<close> at the
  blank line at offset 8: the block starts at offset 9.
\<close>

theorem trailer_block_rule_as_written_counterexample:
  "find_trailer_end ''Subject\<newline>\<newline>Key: v\<newline>\<newline>#c\<newline> \<newline>''
     (find_patch_start ''Subject\<newline>\<newline>Key: v\<newline>\<newline>#c\<newline> \<newline>'') = 22
   \<and> to_int32 (find_trailer_start ''Subject\<newline>\<newline>Key: v\<newline>\<newline>#c\<newline> \<newline>'' 22) = 9
   \<and> spec_trailer_start_as_written (take 22 ''Subject\<newline>\<newline>Key: v\<newline>\<newline>#c\<newline> \<newline>'') = 22"
proof -
  let ?m = "''Subject\<newline>\<newline>Key: v\<newline>\<newline>#c\<newline> \<newline>''"
  have te: "find_trailer_end ?m (find_patch_start ?m) = 22" by code_simp
  have code: "find_trailer_start ?m 22 = 9" by code_simp
  have spec: "spec_trailer_start_as_written (take 22 ?m) = 22" by code_simp
  show ?thesis unfolding te code spec by (simp add: to_int32_def)
qed

text \<open>
  Claim C2, as the code has it. Scenario C of the specification expects the two pairs
  \<open>(Key, val)\<close> and \<open>(Other, v2)\<close> from the message below. Its last paragraph holds a line
  that is no trailer and no line with a generated prefix, so \<^verbatim>\<open>find_trailer_start\<close> finds
  no trailer block: the pipeline (create, then advance until the end) emits no pair.
\<close>

theorem scenario_c_no_pairs:
  "trailers_of ''Subject\<newline>\<newline>Key: val\<newline>NotATrailerLine\<newline>Other: v2\<newline>'' = []"
  by code_simp

text \<open>Claim C2 as the specification states it fails on that message.\<close>

theorem scenario_c_counterexample:
  "trailers_of ''Subject\<newline>\<newline>Key: val\<newline>NotATrailerLine\<newline>Other: v2\<newline>''
     \<noteq> [(Some ''Key'', Some ''val''), (Some ''Other'', Some ''v2'')]"
  by code_simp

text \<open>
  Claim C3, as the code has it. For every message, the bytes of the extracted trailer
  block, fed back as a fresh message, emit no pair: the block begins where the title of a
  message would, and \<^verbatim>\<open>find_trailer_start\<close> never takes the first paragraph for
  trailers. So the sequence extracted again equals the original sequence exactly when the
  original sequence is empty.
\<close>

theorem reextraction_emits_nothing:
  "trailers_of (trailer_block_bytes message) = []
   \<and> (trailers_of (trailer_block_bytes message) = trailers_of message)
       = (trailers_of message = [])"
proof -
  let ?b = "trailer_block_bytes message"
  have "find_trailer_start ?b (find_trailer_end ?b (find_patch_start ?b))
      = find_trailer_end ?b (find_patch_start ?b)"
    by (rule no_block_in_blank_tail [OF block_has_blank_tail])
       (simp add: trimmed_region_no_NUL)
  then have "trailers_of ?b = []" by (rule trailers_of_no_block)
  then show ?thesis by auto
qed

text \<open>
  Claim C3 as the specification states it (extracting again yields the same pairs) fails
  for a message with one trailer.
\<close>

theorem reextraction_counterexample:
  "trailers_of (trailer_block_bytes ''Subject\<newline>\<newline>Key: val\<newline>'')
     \<noteq> trailers_of ''Subject\<newline>\<newline>Key: val\<newline>''"
  by code_simp

text \<open>
  Claim C4 says that the key of every emitted pair is non-empty. For a block line that
  starts with the separator, state \<^verbatim>\<open>S_KEY\<close> ends the key where it began: the second
  pair emitted for the message below has the empty key.
\<close>

theorem empty_key_emitted:
  "trailers_of ''Subject\<newline>\<newline>Signed-off-by: A\<newline>: foo\<newline>''
     = [(Some ''Signed-off-by'', Some ''A''), (Some [], Some ''foo'')]"
  by code_simp

text \<open>
  Claim C5 says that a call to advance returns the next pair or the EndOfSequence signal.
  For the message below the second call skips the malformed line \<open>bad\<close>, meets the
  terminator in \<^verbatim>\<open>S_START\<close> and returns \<open>0\<close> with nothing stored through
  \<^verbatim>\<open>value_out\<close>: a success that produced no pair. A caller that advances until the
  first non-zero code holds, after that call, a key pointer at \<open>bad\<close> and no value.
\<close>

theorem success_without_pair:
  "(case git_message_trailer_iterator_new True
            ''Subject\<newline>\<newline>Signed-off-by: A\<newline>bad\<newline>'' of
      (rc, None) \<Rightarrow> (rc, None, None)
    | (rc, Some iter) \<Rightarrow>
        (let second = git_message_trailer_iterator_next
                        (next_iter (git_message_trailer_iterator_next iter))
         in (next_rc second, next_key second, next_value second)))
     = (0, Some 17, None)
   \<and> trailers_of ''Subject\<newline>\<newline>Signed-off-by: A\<newline>bad\<newline>''
     = [(Some ''Signed-off-by'', Some ''A''), (Some ''bad\<newline>'', None)]"
  by code_simp

text \<open>
  Claim C6 says that \<^verbatim>\<open>git_message_trailers\<close> returns the signal with which the callback
  stopped the iteration. Here the callback counts its calls and returns \<open>7\<close>; the function
  calls it once, frees the block and the iterator, and returns \<open>0\<close>.
\<close>

theorem callback_signal_dropped:
  "git_message_trailers True ''Subject\<newline>\<newline>Key: val\<newline>''
      (\<lambda>key value calls. (7, Suc calls)) (0 :: nat)
     = (0, 1, [Block_buffer (''Key'' @ [NUL] @ '' val'' @ [NUL, NUL]), Iterator_struct])"
  by code_simp

text \<open>
  Claim C7 says that a trailer line whose separator is followed by the line break yields
  the empty value. State \<^verbatim>\<open>S_SEP_WS\<close> takes the line break as the first byte of the
  value: for the block line \<open>Key:\<close> the value emitted is the line break.
\<close>

theorem separator_then_line_break:
  "trailers_of ''Subject\<newline>\<newline>Key:\<newline>'' = [(Some ''Key'', Some ''\<newline>'')]"
  by code_simp

text \<open>
  Claim C8 says that \<^verbatim>\<open>ignore_non_trailer\<close> returns the length of the trailing run of
  ignorable lines. A run that starts at offset \<open>0\<close> is not recorded, since \<open>boc = 0\<close> also
  means that there is no run: for the region that is one comment line the result is \<open>0\<close>,
  not \<open>3\<close>.
\<close>

theorem leading_comment_not_trimmed:
  "ignore_non_trailer ''#c\<newline>'' 3 = 0"
  by code_simp

text \<open>
  Claim C9: for every message shorter than \<open>2^31\<close> bytes, the \<^verbatim>\<open>int\<close> that
  \<^verbatim>\<open>find_patch_start\<close> returns is the byte offset of the first line whose content begins
  with \<^verbatim>\<open>---\<close>, and the length of the message when no line does.
\<close>

theorem find_patch_start_first_dash_line:
  assumes "length (c_string str 0) < 2 ^ 31"
  shows "to_int32 (find_patch_start str)
       = int (spec_patch_start (lines_of (c_string str 0)))"
proof -
  have eq: "find_patch_start str = spec_patch_start (lines_of (c_string str 0))"
    by (simp add: find_patch_start_def find_patch_start_loop_spec)
  from find_patch_start_le [of str] assms have "find_patch_start str < 2 ^ 31" by linarith
  then have "to_int32 (find_patch_start str) = int (find_patch_start str)"
    by (rule to_int32_small)
  with eq show ?thesis by simp
qed

theorem find_patch_start_first_dash_line_witness:
  "length (c_string ''a\<newline>---\<newline>b'' 0) < 2 ^ 31
   \<and> to_int32 (find_patch_start ''a\<newline>---\<newline>b'') = 2
   \<and> lines_of ''a\<newline>---\<newline>b'' = [''a\<newline>'', ''---\<newline>'', ''b'']"
proof -
  have h: "length (c_string ''a\<newline>---\<newline>b'' 0) < 2 ^ 31"
    by (simp add: c_string_def NUL_def)
  have "spec_patch_start (lines_of (c_string ''a\<newline>---\<newline>b'' 0)) = 2" by code_simp
  moreover have "lines_of ''a\<newline>---\<newline>b'' = [''a\<newline>'', ''---\<newline>'', ''b'']" by code_simp
  ultimately show ?thesis
    using h find_patch_start_first_dash_line [OF h] by simp
qed

text \<open>
  Claim C10: \<^verbatim>\<open>git_message_trailer_iterator_free\<close> called with the null handle returns
  at once and hands nothing to \<^verbatim>\<open>git__free\<close>.
\<close>

theorem free_null_is_noop:
  "git_message_trailer_iterator_free None = []"
  by (simp add: git_message_trailer_iterator_free_def)

end
